theory Spec2Isabelle
  imports Complex_Main "HOL-Library.Multiset" "HOL-Library.Product_Lexorder" "HOL-Library.AList"
begin

section \<open>Data model\<close>

text \<open>
  The orchestrator of \<^verbatim>\<open>fltk/core/distributed/orchestrator.py\<close> keeps a priority queue of
  pending tasks and two sets of deployed and completed tasks, and talks to a cluster
  (the job client, the resource store) whose answers it cannot control. The model keeps
  the program's state in a record, the cluster's answers in a second record of oracle
  functions, and every call the program makes to the outside in log fields of the state.
\<close>

text \<open>
  The class of a task object, as \<^verbatim>\<open>isinstance\<close> sees it in \<^verbatim>\<open>render_template\<close>. The two
  classes the renderer knows, the class of tasks recovered from the job history, and any
  other class.
\<close>

datatype task_class = Federated | Distributed | Historical | Unrecognized

text \<open>
  Modelled from the spec: the task classes of \<^verbatim>\<open>fltk.util.task\<close> are not part of the
  sources. A task has an identity, a priority, an arrival sequence number that breaks ties
  between equal priorities (spec 3 and 4.1), a payload (dataset, network, replication, the
  roles of \<^verbatim>\<open>type_map\<close>, the requested epochs \<^verbatim>\<open>hyper_parameters.default.total_epochs\<close>)
  and the mutable epoch budget that the budget-adaptive policy rewrites.
\<close>

record task =
  task_id :: string
  priority :: int
  arrival_seq :: nat
  task_kind :: task_class
  dataset :: string
  network :: string
  replication :: int
  type_map :: "string list"
  total_epochs :: int
  epoch_budget :: int

text \<open>An arrival of the generator's feed: the description a task is built from.\<close>

record arrival =
  arr_experiment_type :: task_class
  arr_priority :: int
  arr_seq :: nat
  arr_dataset :: string
  arr_network :: string
  arr_replication :: int
  arr_type_map :: "string list"
  arr_total_epochs :: int

text \<open>The part of \<^verbatim>\<open>DistributedConfig\<close> the orchestrator reads.\<close>

record distributed_config =
  namespace :: string
  parallel_execution :: bool
  log_path :: string
  experiment_prefix :: string

text \<open>An external call either raises or returns.\<close>

datatype 'a reply = Fails | Replies 'a

text \<open>
  The cluster and the other sources of nondeterminism. \<^verbatim>\<open>get_job_status\<close> is indexed by
  the number of sleeps the orchestrator has made so far, which is the only clock of the
  model, then by the job name and the namespace of the query. The three \<open>_fails\<close> fields
  say which calls of the resource store and of the job client raise.
\<close>

record env =
  get_job_status :: "nat \<Rightarrow> string \<Rightarrow> string \<Rightarrow> string option reply"
  create_namespaced_config_map_fails :: "string \<Rightarrow> string \<Rightarrow> bool"
  create_fails :: "string \<Rightarrow> string \<Rightarrow> bool"
  list_jobs :: "string \<Rightarrow> string list reply"
  delete_fails :: "string \<Rightarrow> string \<Rightarrow> bool"
  uuid4 :: "nat \<Rightarrow> string"

text \<open>
  The state of one orchestrator. \<^verbatim>\<open>pending_tasks\<close> is the array of the
  \<^verbatim>\<open>PriorityQueue\<close> (its attribute \<^verbatim>\<open>queue\<close>, a binary heap). \<^verbatim>\<open>total_time\<close> is an
  attribute that may be absent, hence an option. The remaining fields log the calls made
  to the outside: sleeps, identifiers drawn, status queries (job name and namespace),
  config maps and jobs created (namespace and name), jobs deleted.
\<close>

record orchestrator =
  alive :: bool
  pending_tasks :: "task list"
  deployed_tasks :: "task set"
  completed_tasks :: "task set"
  total_time :: "rat option"
  sleeps :: nat
  uuid_draws :: nat
  status_queries :: "(string \<times> string) set"
  config_maps_created :: "(string \<times> string) list"
  jobs_created :: "(string \<times> string) list"
  jobs_deleted :: "(string \<times> string) list"

text \<open>
  The exceptions of the model: a missing attribute, popping from an empty list, the
  \<^verbatim>\<open>Exception\<close> of \<^verbatim>\<open>render_template\<close> for a task it cannot handle, a call of the
  cluster's API that raises, and an arrival no task can be built from.
\<close>

datatype error =
  AttributeError
  | IndexError
  | CannotHandleTask
  | ApiException
  | ConstructionError

text \<open>
  A method that may raise returns the exception together with the state it leaves behind
  (the object outlives the exception), or the new state.
\<close>

type_synonym outcome = "(error \<times> orchestrator) + orchestrator"

section \<open>The priority queue\<close>

text \<open>
  Modelled from the spec: the comparison of tasks is defined by the task classes, which
  are not part of the sources. Tasks are ordered by priority and, when the priorities are
  equal, by arrival sequence number (spec 4.1 and 4.3).
\<close>

definition task_lt :: "task \<Rightarrow> task \<Rightarrow> bool" where
  "task_lt a b =
     (priority a < priority b \<or> (priority a = priority b \<and> arrival_seq a < arrival_seq b))"

text \<open>
  \<^verbatim>\<open>queue.PriorityQueue\<close> keeps its entries in a list that \<^verbatim>\<open>heapq\<close> maintains as a
  binary heap: \<^verbatim>\<open>put\<close> is \<^verbatim>\<open>heappush\<close> and \<^verbatim>\<open>get\<close> is \<^verbatim>\<open>heappop\<close>. The functions
  below follow \<^verbatim>\<open>heapq.py\<close>.

  \<^verbatim>\<open>_siftdown(heap, startpos, pos)\<close> moves the item at \<^verbatim>\<open>pos\<close> towards the root as long as
  it is smaller than its parent. The loop carries \<^verbatim>\<open>newitem\<close>; every index it reads is at
  most \<^verbatim>\<open>pos\<close>, which the callers take inside the list.
\<close>

function siftdown_loop :: "task list \<Rightarrow> nat \<Rightarrow> nat \<Rightarrow> task \<Rightarrow> task list" where
  "siftdown_loop heap startpos pos newitem =
     (if pos > startpos then
        (let parentpos = (pos - 1) div 2;
             parent = heap ! parentpos
         in if task_lt newitem parent
            then siftdown_loop (heap[pos := parent]) startpos parentpos newitem
            else heap[pos := newitem])
      else heap[pos := newitem])"
  by pat_completeness auto
termination
  by (relation "measure (\<lambda>(heap, startpos, pos, newitem). pos)") auto

declare siftdown_loop.simps [simp del]

definition siftdown :: "task list \<Rightarrow> nat \<Rightarrow> nat \<Rightarrow> task list" where
  "siftdown heap startpos pos = siftdown_loop heap startpos pos (heap ! pos)"

text \<open>
  \<^verbatim>\<open>_siftup(heap, pos)\<close> first moves the smaller child up until the hole reaches a leaf,
  then puts the item there and sifts it down (towards the root) again. The loop returns
  the list and the position of the hole.
\<close>

function siftup_loop :: "task list \<Rightarrow> nat \<Rightarrow> nat \<Rightarrow> task list \<times> nat" where
  "siftup_loop heap endpos pos =
     (let childpos = 2 * pos + 1
      in if childpos < endpos then
           (let rightpos = childpos + 1;
                childpos' = (if rightpos < endpos \<and> \<not> task_lt (heap ! childpos) (heap ! rightpos)
                             then rightpos else childpos)
            in siftup_loop (heap[pos := heap ! childpos']) endpos childpos')
         else (heap, pos))"
  by pat_completeness auto
termination
  by (relation "measure (\<lambda>(heap, endpos, pos). endpos - pos)") (auto simp: Let_def)

declare siftup_loop.simps [simp del]

definition siftup :: "task list \<Rightarrow> nat \<Rightarrow> task list" where
  "siftup heap pos =
     (let endpos = length heap;
          startpos = pos;
          newitem = heap ! pos;
          (heap1, pos1) = siftup_loop heap endpos pos
      in siftdown (heap1[pos1 := newitem]) startpos pos1)"

definition heappush :: "task list \<Rightarrow> task \<Rightarrow> task list" where
  "heappush heap item = siftdown (heap @ [item]) 0 (length (heap @ [item]) - 1)"

text \<open>\<^verbatim>\<open>heappop\<close>: \<^verbatim>\<open>heap.pop()\<close> raises \<^verbatim>\<open>IndexError\<close> on the empty list.\<close>

definition heappop :: "task list \<Rightarrow> error + (task \<times> task list)" where
  "heappop heap =
     (if heap = [] then Inl IndexError
      else
        (let lastelt = last heap;
             heap1 = butlast heap
         in if heap1 \<noteq> [] then
              (let returnitem = heap1 ! 0
               in Inr (returnitem, siftup (heap1[0 := lastelt]) 0))
            else Inr (lastelt, heap1)))"

text \<open>The heap operations keep the length of the list, up to the entry pushed or popped.\<close>

lemma length_siftdown_loop [simp]:
  "length (siftdown_loop heap startpos pos newitem) = length heap"
  by (induction heap startpos pos newitem rule: siftdown_loop.induct)
     (subst siftdown_loop.simps, simp add: Let_def)

lemma length_siftdown [simp]: "length (siftdown heap startpos pos) = length heap"
  by (simp add: siftdown_def)

lemma length_siftup_loop [simp]:
  "length (fst (siftup_loop heap endpos pos)) = length heap"
  by (induction heap endpos pos rule: siftup_loop.induct)
     (subst siftup_loop.simps, simp add: Let_def)

lemma length_siftup [simp]: "length (siftup heap pos) = length heap"
  by (simp add: siftup_def Let_def split: prod.split)
     (metis fst_conv length_siftup_loop)

lemma length_heappush [simp]: "length (heappush heap item) = Suc (length heap)"
  by (simp add: heappush_def)

lemma length_heappop:
  "heappop heap = Inr (t, rest) \<Longrightarrow> Suc (length rest) = length heap"
  by (cases heap rule: rev_cases) (auto simp add: heappop_def Let_def split: if_splits)




section \<open>The lifecycle tracker\<close>

text \<open>
  \<^verbatim>\<open>uuid_regex.search(task)\<close>: the leftmost place of a string where eight, four, four,
  four and twelve hexadecimal digits stand, separated by dashes. The pattern has a fixed
  length of 36, so the match is the 36 characters from that place.
\<close>

definition is_hex :: "char \<Rightarrow> bool" where
  "is_hex c = (c \<in> set ''0123456789abcdefABCDEF'')"

fun match_hex :: "nat \<Rightarrow> string \<Rightarrow> string option" where
  "match_hex 0 s = Some s"
| "match_hex (Suc n) [] = None"
| "match_hex (Suc n) (c # cs) = (if is_hex c then match_hex n cs else None)"

fun match_dash :: "string \<Rightarrow> string option" where
  "match_dash [] = None"
| "match_dash (c # cs) = (if c = CHR ''-'' then Some cs else None)"

definition uuid_at :: "string \<Rightarrow> bool" where
  "uuid_at s =
     (Option.bind (Option.bind (Option.bind (Option.bind (Option.bind (Option.bind
        (Option.bind (Option.bind (match_hex 8 s) match_dash) (match_hex 4)) match_dash)
        (match_hex 4)) match_dash) (match_hex 4)) match_dash) (match_hex 12) \<noteq> None)"

fun uuid_search :: "string \<Rightarrow> string option" where
  "uuid_search [] = None"
| "uuid_search (c # cs) =
     (if uuid_at (c # cs) then Some (take 36 (c # cs)) else uuid_search cs)"

text \<open>
  Modelled from the spec: \<^verbatim>\<open>HistoricalArrivalTask\<close> (in \<^verbatim>\<open>fltk.util.task.arrival_task\<close>,
  not part of the sources) stands for a job of a prior run that is known by its identifier
  only (spec 4.5); every other field is empty.
\<close>

definition HistoricalArrivalTask :: "string \<Rightarrow> task" where
  "HistoricalArrivalTask u =
     \<lparr>task_id = u, priority = 0, arrival_seq = 0, task_kind = Historical, dataset = [],
      network = [], replication = 0, type_map = [], total_epochs = 0, epoch_budget = 0\<rparr>"

definition terminal_statuses :: "string set" where
  "terminal_statuses = {''Completed'', ''Failed'', ''Succeeded''}"

text \<open>
  The \<^verbatim>\<open>try\<close> block of the polling loop: the status of the job \<^verbatim>\<open>trainjob-{task.id}\<close> in
  the namespace \<^verbatim>\<open>test\<close>; a query that raises leaves \<^verbatim>\<open>job_status = None\<close>.
\<close>

definition job_status_of :: "env \<Rightarrow> nat \<Rightarrow> task \<Rightarrow> string option" where
  "job_status_of e clock t =
     (case get_job_status e clock (''trainjob-'' @ task_id t) ''test'' of
        Fails \<Rightarrow> None
      | Replies s \<Rightarrow> s)"

text \<open>\<^verbatim>\<open>job_status and job_status in {'Completed', 'Failed', 'Succeeded'}\<close>\<close>

definition is_finished :: "string option \<Rightarrow> bool" where
  "is_finished job_status =
     (case job_status of
        None \<Rightarrow> False
      | Some s \<Rightarrow> s \<noteq> [] \<and> s \<in> terminal_statuses)"

text \<open>
  One pass of the \<^verbatim>\<open>while\<close> loop of \<^verbatim>\<open>wait_for_jobs_to_complete\<close>: query every deployed
  task, collect the finished ones in \<^verbatim>\<open>task_to_move\<close>, add them to the completed tasks,
  remove them from the deployed ones, sleep.
\<close>

definition task_to_move :: "env \<Rightarrow> orchestrator \<Rightarrow> task set" where
  "task_to_move e self =
     {t \<in> deployed_tasks self. is_finished (job_status_of e (sleeps self) t)}"

definition poll_iteration :: "env \<Rightarrow> orchestrator \<Rightarrow> orchestrator" where
  "poll_iteration e self =
     self\<lparr>completed_tasks := completed_tasks self \<union> task_to_move e self,
          deployed_tasks := deployed_tasks self - task_to_move e self,
          status_queries := status_queries self \<union>
             (\<lambda>t. (''trainjob-'' @ task_id t, ''test'')) ` deployed_tasks self,
          sleeps := Suc (sleeps self)\<rparr>"

text \<open>
  The loop itself runs as long as a task is deployed, which may be forever: the first
  argument bounds the number of passes, and \<open>None\<close> says that the bound was reached with
  tasks still deployed.
\<close>

fun wait_loop :: "nat \<Rightarrow> env \<Rightarrow> orchestrator \<Rightarrow> orchestrator option" where
  "wait_loop 0 e self = (if deployed_tasks self \<noteq> {} then None else Some self)"
| "wait_loop (Suc n) e self =
     (if deployed_tasks self \<noteq> {} then wait_loop n e (poll_iteration e self) else Some self)"

text \<open>
  \<^verbatim>\<open>wait_for_jobs_to_complete(others)\<close>: a non-empty list of job names seeds the deployed
  tasks with one historical task for each identifier found in a name.
\<close>

definition seed_historical :: "string list option \<Rightarrow> orchestrator \<Rightarrow> orchestrator" where
  "seed_historical others self =
     (case others of
        None \<Rightarrow> self
      | Some names \<Rightarrow>
          if names = [] then self
          else self\<lparr>deployed_tasks := deployed_tasks self \<union>
                 HistoricalArrivalTask ` set (List.map_filter uuid_search names)\<rparr>)"

definition wait_for_jobs_to_complete ::
  "nat \<Rightarrow> env \<Rightarrow> string list option \<Rightarrow> orchestrator \<Rightarrow> orchestrator option" where
  "wait_for_jobs_to_complete fuel e others self = wait_loop fuel e (seed_historical others self)"

section \<open>Budget-adaptive epoch assignment\<close>

text \<open>
  The constants of \<^verbatim>\<open>_optimize_epochs\<close>. Python computes with binary floating point; the
  model computes with the decimal constants as exact rationals.
\<close>

definition INTERCEPT :: rat where
  "INTERCEPT = - (31629 / 10000)"

definition SLOPE :: rat where
  "SLOPE = 270135 / 10000"

definition BASE_EPOCHS :: int where
  "BASE_EPOCHS = 10"

definition estimated_time :: "task \<Rightarrow> rat" where
  "estimated_time task1 = INTERCEPT + SLOPE * of_int (total_epochs task1)"

text \<open>Python's \<^verbatim>\<open>int\<close> of a number: truncation towards zero.\<close>

definition py_int :: "rat \<Rightarrow> int" where
  "py_int x = (if 0 \<le> x then \<lfloor>x\<rfloor> else \<lceil>x\<rceil>)"

definition estimate_epochs :: "rat \<Rightarrow> int" where
  "estimate_epochs time = py_int ((time - INTERCEPT) / SLOPE)"

text \<open>The loop over \<^verbatim>\<open>self.pending_tasks.queue\<close>, adding up from 0.\<close>

definition current_queue_time :: "task list \<Rightarrow> rat" where
  "current_queue_time queue = foldl (\<lambda>acc pending_task. acc + estimated_time pending_task) 0 queue"

text \<open>
  Modelled from the spec: \<^verbatim>\<open>set_epochs\<close> is a method of the task classes, which are not
  part of the sources; it rewrites the task's epoch budget (spec 3).
\<close>

definition set_epochs :: "int \<Rightarrow> task \<Rightarrow> task" where
  "set_epochs n t = t\<lparr>epoch_budget := n\<rparr>"

text \<open>
  \<^verbatim>\<open>_optimize_epochs\<close>. Reading \<^verbatim>\<open>self.total_time\<close> raises \<^verbatim>\<open>AttributeError\<close> when the
  attribute is absent. The method returns the task, not the number.
\<close>

definition optimize_epochs :: "orchestrator \<Rightarrow> task \<Rightarrow> error + task" where
  "optimize_epochs self t =
     (case total_time self of
        None \<Rightarrow> Inl AttributeError
      | Some tt \<Rightarrow>
          let allocated_time = tt - current_queue_time (pending_tasks self)
          in Inr (set_epochs (min (max (estimate_epochs allocated_time) 1) BASE_EPOCHS) t))"

section \<open>Admission\<close>

text \<open>
  Modelled from the spec: \<^verbatim>\<open>get_job_arrival_class\<close> and the \<^verbatim>\<open>build\<close> methods of the task
  classes are not part of the sources. An arrival of an unrecognised variant fails with a
  construction error (spec 7); otherwise \<^verbatim>\<open>build\<close> is a pure function of the arrival, the
  identifier and the replication (spec 4.1), and the epoch budget starts as the requested
  number of epochs.
\<close>

definition build :: "arrival \<Rightarrow> string \<Rightarrow> int \<Rightarrow> error + task" where
  "build arr u_id repl =
     (if arr_experiment_type arr = Federated \<or> arr_experiment_type arr = Distributed then
        Inr \<lparr>task_id = u_id, priority = arr_priority arr, arrival_seq = arr_seq arr,
             task_kind = arr_experiment_type arr, dataset = arr_dataset arr,
             network = arr_network arr, replication = repl, type_map = arr_type_map arr,
             total_epochs = arr_total_epochs arr, epoch_budget = arr_total_epochs arr\<rparr>
      else Inl ConstructionError)"

text \<open>\<^verbatim>\<open>_generate_task\<close>: draw an identifier, then build the task.\<close>

definition generate_task ::
  "env \<Rightarrow> arrival \<Rightarrow> orchestrator \<Rightarrow> (error \<times> orchestrator) + (task \<times> orchestrator)" where
  "generate_task e arr self =
     (let unique_identifier = uuid4 e (uuid_draws self);
          self1 = self\<lparr>uuid_draws := Suc (uuid_draws self)\<rparr>
      in case build arr unique_identifier (arr_replication arr) of
           Inl err \<Rightarrow> Inl (err, self1)
         | Inr t \<Rightarrow> Inr (t, self1))"

text \<open>
  The first inner loop of \<^verbatim>\<open>SimulatedOrchestrator.run\<close> and of \<^verbatim>\<open>BatchOrchestrator.run\<close>:
  every arrival of the feed becomes a task that is put into the queue. The list is what
  the feed holds while the loop drains it.
\<close>

fun admit_arrivals :: "env \<Rightarrow> arrival list \<Rightarrow> orchestrator \<Rightarrow> outcome" where
  "admit_arrivals e [] self = Inr self"
| "admit_arrivals e (arr # arrs) self =
     (case generate_task e arr self of
        Inl x \<Rightarrow> Inl x
      | Inr (t, self1) \<Rightarrow>
          admit_arrivals e arrs (self1\<lparr>pending_tasks := heappush (pending_tasks self1) t\<rparr>))"

text \<open>
  The same loop in \<^verbatim>\<open>OptimizedSimulatedOrchestrator.run\<close>, which passes every new task
  through \<^verbatim>\<open>_optimize_epochs\<close> before it puts it into the queue.
\<close>

fun admit_arrivals_optimized :: "env \<Rightarrow> arrival list \<Rightarrow> orchestrator \<Rightarrow> outcome" where
  "admit_arrivals_optimized e [] self = Inr self"
| "admit_arrivals_optimized e (arr # arrs) self =
     (case generate_task e arr self of
        Inl x \<Rightarrow> Inl x
      | Inr (t, self1) \<Rightarrow>
          (case optimize_epochs self1 t of
             Inl err \<Rightarrow> Inl (err, self1)
           | Inr t' \<Rightarrow>
               admit_arrivals_optimized e arrs
                 (self1\<lparr>pending_tasks := heappush (pending_tasks self1) t'\<rparr>)))"

section \<open>Deployment\<close>

text \<open>Python's \<^verbatim>\<open>str\<close> of an integer, and \<^verbatim>\<open>str.lower\<close> on ASCII letters.\<close>

fun str_nat :: "nat \<Rightarrow> string" where
  "str_nat n =
     (if n < 10 then [''0123456789'' ! n]
      else str_nat (n div 10) @ [''0123456789'' ! (n mod 10)])"

definition str_int :: "int \<Rightarrow> string" where
  "str_int i = (if i < 0 then CHR ''-'' # str_nat (nat (- i)) else str_nat (nat i))"

definition lower_char :: "char \<Rightarrow> char" where
  "lower_char c =
     (case List.find (\<lambda>(u, l). u = c)
             (zip ''ABCDEFGHIJKLMNOPQRSTUVWXYZ'' ''abcdefghijklmnopqrstuvwxyz'') of
        None \<Rightarrow> c
      | Some (u, l) \<Rightarrow> l)"

definition lower :: "string \<Rightarrow> string" where
  "lower s = map lower_char s"

definition generate_experiment_path_name ::
  "task \<Rightarrow> string \<Rightarrow> distributed_config \<Rightarrow> string" where
  "generate_experiment_path_name t u_id config =
     (let log_dir = log_path config;
          experiment_path = experiment_prefix config;
          experiment_name =
            dataset t @ ''_'' @ network t @ ''_'' @ u_id @ ''_'' @ str_int (replication t)
      in log_dir @ ''/'' @ experiment_path @ ''/'' @ experiment_name)"

text \<open>
  What a template renders to is the business of the template engine: the model keeps the
  name of the template and the arguments of \<^verbatim>\<open>render\<close>.
\<close>

record rendered =
  template_name :: string
  rendered_task :: task
  rendered_tpe :: string
  rendered_replication :: int
  rendered_experiment_path :: string

text \<open>\<^verbatim>\<open>render_template\<close>: a template for each of the two known classes, an exception otherwise.\<close>

definition render_template :: "task \<Rightarrow> string \<Rightarrow> int \<Rightarrow> string \<Rightarrow> error + rendered" where
  "render_template t tpe repl experiment_path =
     (if task_kind t = Federated then
        Inr \<lparr>template_name = ''node.jinja.yaml'', rendered_task = t, rendered_tpe = tpe,
             rendered_replication = repl, rendered_experiment_path = experiment_path\<rparr>
      else if task_kind t = Distributed then
        Inr \<lparr>template_name = ''dist_node.jinja.yaml'', rendered_task = t, rendered_tpe = tpe,
             rendered_replication = repl, rendered_experiment_path = experiment_path\<rparr>
      else Inl CannotHandleTask)"

record config_map =
  cm_name :: string
  cm_label :: string
  cm_data :: rendered

text \<open>
  \<^verbatim>\<open>_prepare_experiment_maps\<close>: one config map and one name for each role of the task's
  \<^verbatim>\<open>type_map\<close>, in two ordered dictionaries (assignment replaces the value of a key that
  is present and appends a new key otherwise).
\<close>

fun prepare_loop ::
  "task \<Rightarrow> distributed_config \<Rightarrow> string \<Rightarrow> int \<Rightarrow> string list \<Rightarrow>
   (string \<times> config_map) list \<times> (string \<times> string) list \<Rightarrow>
   error + ((string \<times> config_map) list \<times> (string \<times> string) list)" where
  "prepare_loop t config u_id repl [] (type_dict, name_dict) = Inr (type_dict, name_dict)"
| "prepare_loop t config u_id repl (tpe # tpes) (type_dict, name_dict) =
     (let name = lower (tpe @ ''-'' @ u_id @ ''-'' @ str_int repl);
          label = ''fltk.node.config.'' @ tpe;
          exp_path = generate_experiment_path_name t u_id config
      in case render_template t tpe repl exp_path of
           Inl err \<Rightarrow> Inl err
         | Inr filled_template \<Rightarrow>
             prepare_loop t config u_id repl tpes
               (AList.update tpe \<lparr>cm_name = name, cm_label = label, cm_data = filled_template\<rparr>
                  type_dict,
                AList.update tpe name name_dict))"

definition prepare_experiment_maps ::
  "task \<Rightarrow> distributed_config \<Rightarrow> string \<Rightarrow> int \<Rightarrow>
   error + ((string \<times> config_map) list \<times> (string \<times> string) list)" where
  "prepare_experiment_maps t config u_id repl =
     prepare_loop t config u_id repl (type_map t) ([], [])"

text \<open>
  \<^verbatim>\<open>_create_config_maps\<close>: one call of the resource store for each config map, under the
  configured namespace. A call that raises ends the method.
\<close>

fun create_config_maps ::
  "env \<Rightarrow> distributed_config \<Rightarrow> (string \<times> config_map) list \<Rightarrow> orchestrator \<Rightarrow> outcome" where
  "create_config_maps e config [] self = Inr self"
| "create_config_maps e config ((tpe, cm) # rest) self =
     (if create_namespaced_config_map_fails e (namespace config) (cm_name cm)
      then Inl (ApiException, self)
      else create_config_maps e config rest
             (self\<lparr>config_maps_created :=
                     config_maps_created self @ [(namespace config, cm_name cm)]\<rparr>))"

text \<open>
  Modelled from the spec: \<^verbatim>\<open>construct_job\<close> (in \<^verbatim>\<open>fltk.util.cluster.client\<close>, not part of
  the sources) builds the job descriptor from the task (spec 4.4); the model keeps the
  task's identifier and the names of its config maps.
\<close>

record job =
  job_task_id :: string
  job_config_maps :: "(string \<times> string) list"

definition construct_job ::
  "distributed_config \<Rightarrow> task \<Rightarrow> (string \<times> string) list \<Rightarrow> job" where
  "construct_job config t configmap_name_dict =
     \<lparr>job_task_id = task_id t, job_config_maps = configmap_name_dict\<rparr>"

text \<open>
  The body of the deployment loop for the task \<^verbatim>\<open>curr_task\<close> that was taken from the
  queue, up to \<^verbatim>\<open>self.deployed_tasks.add(curr_task)\<close>. Nothing in the loop catches an
  exception.
\<close>

definition deploy_task ::
  "env \<Rightarrow> distributed_config \<Rightarrow> int \<Rightarrow> task \<Rightarrow> orchestrator \<Rightarrow> outcome" where
  "deploy_task e config experiment_replication curr_task self =
     (case prepare_experiment_maps curr_task config (task_id curr_task) experiment_replication of
        Inl err \<Rightarrow> Inl (err, self)
      | Inr (config_dict, configmap_name_dict) \<Rightarrow>
          (case create_config_maps e config config_dict self of
             Inl x \<Rightarrow> Inl x
           | Inr self1 \<Rightarrow>
               (let job_to_start = construct_job config curr_task configmap_name_dict
                in if create_fails e (namespace config) (job_task_id job_to_start)
                   then Inl (ApiException, self1)
                   else Inr (self1\<lparr>jobs_created :=
                                     jobs_created self1 @
                                       [(namespace config, job_task_id job_to_start)],
                                   deployed_tasks := insert curr_task (deployed_tasks self1)\<rparr>))))"

section \<open>The policies\<close>

text \<open>Deploying a task and waiting for jobs leave the queue as it is.\<close>

lemma pending_create_config_maps:
  "create_config_maps e config cms self = Inr self' \<Longrightarrow> pending_tasks self' = pending_tasks self"
  by (induction e config cms self rule: create_config_maps.induct) (auto split: if_splits)

lemma pending_deploy_task:
  "deploy_task e config repl t self = Inr self' \<Longrightarrow> pending_tasks self' = pending_tasks self"
  by (auto simp add: deploy_task_def Let_def split: sum.splits prod.splits if_splits
           dest: pending_create_config_maps)

lemma pending_poll_iteration [simp]:
  "pending_tasks (poll_iteration e self) = pending_tasks self"
  by (simp add: poll_iteration_def)

lemma pending_wait_loop:
  "wait_loop fuel e self = Some self' \<Longrightarrow> pending_tasks self' = pending_tasks self"
  by (induction fuel e self rule: wait_loop.induct) (auto split: if_splits)

lemma pending_wait_for_jobs_to_complete:
  "wait_for_jobs_to_complete fuel e others self = Some self' \<Longrightarrow>
   pending_tasks self' = pending_tasks self"
  by (auto simp add: wait_for_jobs_to_complete_def seed_historical_def
           dest!: pending_wait_loop split: option.splits if_splits)

text \<open>
  The deployment loop of the three policies: while the queue is not empty, take its
  first task and deploy it; when the configuration asks for sequential execution, wait
  for the deployed jobs before the next task. The result is \<open>None\<close> when a wait does not
  end within the bound.
\<close>

function deploy_pending ::
  "nat \<Rightarrow> env \<Rightarrow> distributed_config \<Rightarrow> int \<Rightarrow> orchestrator \<Rightarrow> outcome option" where
  "deploy_pending fuel e config experiment_replication self =
     (if pending_tasks self \<noteq> [] then
        (case heappop (pending_tasks self) of
           Inl err \<Rightarrow> Some (Inl (err, self))
         | Inr (curr_task, rest) \<Rightarrow>
             (case deploy_task e config experiment_replication curr_task
                     (self\<lparr>pending_tasks := rest\<rparr>) of
                Inl x \<Rightarrow> Some (Inl x)
              | Inr self1 \<Rightarrow>
                  if \<not> parallel_execution config then
                    (case wait_for_jobs_to_complete fuel e None self1 of
                       None \<Rightarrow> None
                     | Some self2 \<Rightarrow> deploy_pending fuel e config experiment_replication self2)
                  else deploy_pending fuel e config experiment_replication self1))
      else Some (Inr self))"
  by pat_completeness auto
termination
proof (relation "measure (\<lambda>(fuel, e, config, repl, self). length (pending_tasks self))")
  show "wf (measure (\<lambda>(fuel, e, config, repl, self). length (pending_tasks self)))"
    by simp
next
  fix fuel :: nat and e config experiment_replication self x2 curr_task rest self1 self2
  assume "heappop (pending_tasks self) = Inr x2" "(curr_task, rest) = x2"
    and "deploy_task e config experiment_replication curr_task (self\<lparr>pending_tasks := rest\<rparr>) = Inr self1"
    and "wait_for_jobs_to_complete fuel e None self1 = Some self2"
  then show "((fuel, e, config, experiment_replication, self2), (fuel, e, config, experiment_replication, self))
       \<in> measure (\<lambda>(fuel, e, config, repl, self). length (pending_tasks self))"
    using length_heappop [of "pending_tasks self" curr_task rest]
      pending_deploy_task [of e config experiment_replication curr_task "self\<lparr>pending_tasks := rest\<rparr>" self1]
      pending_wait_for_jobs_to_complete [of fuel e None self1 self2]
    by simp
next
  fix fuel :: nat and e config experiment_replication self x2 curr_task rest self1
  assume "heappop (pending_tasks self) = Inr x2" "(curr_task, rest) = x2"
    and "deploy_task e config experiment_replication curr_task (self\<lparr>pending_tasks := rest\<rparr>) = Inr self1"
  then show "((fuel, e, config, experiment_replication, self1), (fuel, e, config, experiment_replication, self))
       \<in> measure (\<lambda>(fuel, e, config, repl, self). length (pending_tasks self))"
    using length_heappop [of "pending_tasks self" curr_task rest]
      pending_deploy_task [of e config experiment_replication curr_task "self\<lparr>pending_tasks := rest\<rparr>" self1]
    by simp
qed

declare deploy_pending.simps [simp del]

text \<open>
  \<^verbatim>\<open>_clear_jobs\<close>: list the jobs of the configured namespace and delete each one; a
  deletion that raises is logged and skipped, a listing that raises is not caught here.
\<close>

fun delete_jobs :: "env \<Rightarrow> string \<Rightarrow> string list \<Rightarrow> orchestrator \<Rightarrow> orchestrator" where
  "delete_jobs e ns [] self = self"
| "delete_jobs e ns (job_name # rest) self =
     delete_jobs e ns rest
       (if delete_fails e ns job_name then self
        else self\<lparr>jobs_deleted := jobs_deleted self @ [(ns, job_name)]\<rparr>)"

definition clear_jobs :: "env \<Rightarrow> distributed_config \<Rightarrow> orchestrator \<Rightarrow> outcome" where
  "clear_jobs e config self =
     (case list_jobs e (namespace config) of
        Fails \<Rightarrow> Inl (ApiException, self)
      | Replies names \<Rightarrow> Inr (delete_jobs e (namespace config) names self))"

definition stop :: "orchestrator \<Rightarrow> orchestrator" where
  "stop self = self\<lparr>alive := False\<rparr>"

text \<open>
  The state after \<^verbatim>\<open>Orchestrator.__init__\<close>, which the three policies call and which does
  not call the constructor of its own base class: the class attributes \<^verbatim>\<open>_alive\<close>,
  \<^verbatim>\<open>pending_tasks\<close>, \<^verbatim>\<open>deployed_tasks\<close>, \<^verbatim>\<open>completed_tasks\<close>, and no attribute
  \<^verbatim>\<open>total_time\<close> unless the base class \<^verbatim>\<open>DistNode\<close>, which is not part of the sources,
  defines one: what \<^verbatim>\<open>DistNode\<close> provides is the parameter.
\<close>

definition new_orchestrator :: "rat option \<Rightarrow> orchestrator" where
  "new_orchestrator dist_node_total_time =
     \<lparr>alive = False, pending_tasks = [], deployed_tasks = {}, completed_tasks = {},
      total_time = dist_node_total_time, sleeps = 0, uuid_draws = 0, status_queries = {},
      config_maps_created = [], jobs_created = [], jobs_deleted = []\<rparr>"

text \<open>
  The outer loop of the continuous policies. How often it runs depends on the clock and on
  \<^verbatim>\<open>stop\<close>, and what the feed holds depends on the generator: the list gives, for each
  pass, the arrivals that the pass finds. The first argument is the admission loop.
\<close>

fun policy_loop ::
  "(env \<Rightarrow> arrival list \<Rightarrow> orchestrator \<Rightarrow> outcome) \<Rightarrow> nat \<Rightarrow> env \<Rightarrow> distributed_config \<Rightarrow>
   int \<Rightarrow> arrival list list \<Rightarrow> orchestrator \<Rightarrow> outcome option" where
  "policy_loop admit fuel e config experiment_replication [] self = Some (Inr self)"
| "policy_loop admit fuel e config experiment_replication (batch # batches) self =
     (if \<not> alive self then Some (Inr self)
      else
        (case admit e batch self of
           Inl x \<Rightarrow> Some (Inl x)
         | Inr self1 \<Rightarrow>
             (case deploy_pending fuel e config experiment_replication self1 of
                None \<Rightarrow> None
              | Some (Inl x) \<Rightarrow> Some (Inl x)
              | Some (Inr self2) \<Rightarrow>
                  policy_loop admit fuel e config experiment_replication batches
                    (self2\<lparr>sleeps := Suc (sleeps self2)\<rparr>))))"

definition policy_run ::
  "(env \<Rightarrow> arrival list \<Rightarrow> orchestrator \<Rightarrow> outcome) \<Rightarrow> nat \<Rightarrow> env \<Rightarrow> distributed_config \<Rightarrow>
   bool \<Rightarrow> int \<Rightarrow> arrival list list \<Rightarrow> orchestrator \<Rightarrow> outcome option" where
  "policy_run admit fuel e config clear experiment_replication batches self =
     (case (if clear then clear_jobs e config (self\<lparr>alive := True\<rparr>)
            else Inr (self\<lparr>alive := True\<rparr>)) of
        Inl x \<Rightarrow> Some (Inl x)
      | Inr self1 \<Rightarrow>
          (case policy_loop admit fuel e config experiment_replication batches self1 of
             None \<Rightarrow> None
           | Some (Inl x) \<Rightarrow> Some (Inl x)
           | Some (Inr self2) \<Rightarrow>
               if parallel_execution config then
                 (case wait_for_jobs_to_complete fuel e None (stop self2) of
                    None \<Rightarrow> None
                  | Some self3 \<Rightarrow> Some (Inr self3))
               else Some (Inr (stop self2))))"

text \<open>\<^verbatim>\<open>SimulatedOrchestrator.run\<close> and \<^verbatim>\<open>OptimizedSimulatedOrchestrator.run\<close>.\<close>

definition SimulatedOrchestrator_run ::
  "nat \<Rightarrow> env \<Rightarrow> distributed_config \<Rightarrow> bool \<Rightarrow> int \<Rightarrow> arrival list list \<Rightarrow> orchestrator \<Rightarrow>
   outcome option" where
  "SimulatedOrchestrator_run = policy_run admit_arrivals"

definition OptimizedSimulatedOrchestrator_run ::
  "nat \<Rightarrow> env \<Rightarrow> distributed_config \<Rightarrow> bool \<Rightarrow> int \<Rightarrow> arrival list list \<Rightarrow> orchestrator \<Rightarrow>
   outcome option" where
  "OptimizedSimulatedOrchestrator_run = policy_run admit_arrivals_optimized"

text \<open>
  \<^verbatim>\<open>BatchOrchestrator.run\<close> (the second definition of the class, which replaces the first
  and differs from it by a counter only). The housekeeping catches every exception; the
  wait for the first arrival sleeps \<open>idle\<close> times until the feed holds \<open>batch\<close>, and never
  ends when nothing arrives.
\<close>

definition housekeeping ::
  "nat \<Rightarrow> env \<Rightarrow> distributed_config \<Rightarrow> bool \<Rightarrow> bool \<Rightarrow> orchestrator \<Rightarrow> orchestrator option" where
  "housekeeping fuel e config clear wait_historical self =
     (let after_wait = (\<lambda>self1.
            if clear then
              (case clear_jobs e config self1 of
                 Inl (err, self2) \<Rightarrow> Some self2
               | Inr self2 \<Rightarrow> Some self2)
            else Some self1)
      in if wait_historical then
           (case list_jobs e ''test'' of
              Fails \<Rightarrow> Some self
            | Replies jobs \<Rightarrow>
                (case wait_for_jobs_to_complete fuel e (Some jobs) self of
                   None \<Rightarrow> None
                 | Some self1 \<Rightarrow> after_wait self1))
         else after_wait self)"

definition BatchOrchestrator_run ::
  "nat \<Rightarrow> env \<Rightarrow> distributed_config \<Rightarrow> bool \<Rightarrow> int \<Rightarrow> bool \<Rightarrow> nat \<Rightarrow> arrival list \<Rightarrow>
   orchestrator \<Rightarrow> outcome option" where
  "BatchOrchestrator_run fuel e config clear experiment_replication wait_historical idle batch self =
     (case housekeeping fuel e config clear wait_historical (self\<lparr>alive := True\<rparr>) of
        None \<Rightarrow> None
      | Some self1 \<Rightarrow>
          if batch = [] then None
          else
            (case admit_arrivals e batch (self1\<lparr>sleeps := sleeps self1 + idle\<rparr>) of
               Inl x \<Rightarrow> Some (Inl x)
             | Inr self2 \<Rightarrow>
                 (case deploy_pending fuel e config experiment_replication self2 of
                    None \<Rightarrow> None
                  | Some (Inl x) \<Rightarrow> Some (Inl x)
                  | Some (Inr self3) \<Rightarrow>
                      if parallel_execution config then
                        (case wait_for_jobs_to_complete fuel e None self3 of
                           None \<Rightarrow> None
                         | Some self4 \<Rightarrow> Some (Inr (stop self4)))
                      else Some (Inr (stop self3)))))"

section \<open>The operations of a run\<close>





section \<open>A small cluster for the examples\<close>

text \<open>
  Two configurations that differ in the execution mode, a cluster in which every call
  succeeds and every job of the namespace \<^verbatim>\<open>test\<close> has succeeded, and a few tasks.
\<close>

definition cfg_seq :: distributed_config where
  "cfg_seq = \<lparr>namespace = ''test'', parallel_execution = False, log_path = ''logging'',
              experiment_prefix = ''exp''\<rparr>"

definition cfg_par :: distributed_config where
  "cfg_par = \<lparr>namespace = ''prod'', parallel_execution = True, log_path = ''logging'',
              experiment_prefix = ''exp''\<rparr>"

definition env_ok :: env where
  "env_ok = \<lparr>get_job_status = (\<lambda>clock name ns. if ns = ''test'' then Replies (Some ''Succeeded'') else Fails),
             create_namespaced_config_map_fails = (\<lambda>ns name. False),
             create_fails = (\<lambda>ns name. False),
             list_jobs = (\<lambda>ns. Replies []),
             delete_fails = (\<lambda>ns name. False),
             uuid4 = (\<lambda>n. ''uuid-'' @ str_nat n)\<rparr>"

definition mk_task :: "string \<Rightarrow> int \<Rightarrow> nat \<Rightarrow> task_class \<Rightarrow> int \<Rightarrow> task" where
  "mk_task u p n k ep =
     \<lparr>task_id = u, priority = p, arrival_seq = n, task_kind = k, dataset = ''mnist'',
      network = ''cnn'', replication = 1, type_map = [''Master'', ''Worker''],
      total_epochs = ep, epoch_budget = ep\<rparr>"

definition mk_arrival :: "int \<Rightarrow> nat \<Rightarrow> task_class \<Rightarrow> int \<Rightarrow> arrival" where
  "mk_arrival p n k ep =
     \<lparr>arr_experiment_type = k, arr_priority = p, arr_seq = n, arr_dataset = ''mnist'',
      arr_network = ''cnn'', arr_replication = 1, arr_type_map = [''Master'', ''Worker''],
      arr_total_epochs = ep\<rparr>"

text \<open>
  A cluster that rejects the job of the first task admitted, a cluster that rejects the
  second config map of that task, the orchestrator after the admission of two arrivals,
  and an orchestrator whose queue holds a task of a class the renderer does not know.
\<close>

definition env_submit_fails :: env where
  "env_submit_fails = env_ok\<lparr>create_fails := (\<lambda>ns name. name = ''uuid-0'')\<rparr>"

definition env_registration_fails :: env where
  "env_registration_fails =
     env_ok\<lparr>create_namespaced_config_map_fails := (\<lambda>ns name. name = ''worker-uuid-0-1'')\<rparr>"

definition st_admitted :: orchestrator where
  "st_admitted = (new_orchestrator None)
     \<lparr>alive := True,
      pending_tasks := [mk_task ''uuid-0'' 1 0 Federated 10, mk_task ''uuid-1'' 2 1 Distributed 10],
      uuid_draws := 2\<rparr>"

definition st_unrecognized :: orchestrator where
  "st_unrecognized = (new_orchestrator None)
     \<lparr>alive := True,
      pending_tasks := [mk_task ''x'' 1 0 Unrecognized 10, mk_task ''uuid-1'' 2 1 Distributed 10]\<rparr>"




text \<open>
  A cluster in which the job of task \<open>a\<close> is not visible for five polls and has succeeded
  from then on, the job of task \<open>b\<close> has failed, and every other query raises; a cluster
  that differs from the first one outside the namespace \<^verbatim>\<open>test\<close> only; and an orchestrator
  with two deployed tasks.
\<close>

definition env_retry :: env where
  "env_retry = env_ok\<lparr>get_job_status := (\<lambda>clock name ns.
      if ns = ''test'' \<and> name = ''trainjob-a'' \<and> clock \<ge> 5 then Replies (Some ''Succeeded'')
      else if ns = ''test'' \<and> name = ''trainjob-b'' then Replies (Some ''Failed'')
      else Fails)\<rparr>"


definition st_two :: orchestrator where
  "st_two = (new_orchestrator None)\<lparr>deployed_tasks :=
      {mk_task ''a'' 1 0 Federated 10, mk_task ''b'' 2 1 Distributed 10}\<rparr>"

section \<open>The priority queue: properties\<close>

text \<open>
  The order of the queue is the lexicographic order of the pairs of priority and arrival
  sequence number. A list is a heap when no entry is smaller than its parent, the parent
  of the entry at \<open>i\<close> being the entry at \<open>(i - 1) div 2\<close>.
\<close>

definition key :: "task \<Rightarrow> int \<times> nat" where
  "key t = (priority t, arrival_seq t)"

lemma task_lt_key: "task_lt a b \<longleftrightarrow> key a < key b"
  by (auto simp add: task_lt_def key_def less_prod_def)

definition heap_inv :: "task list \<Rightarrow> bool" where
  "heap_inv h = (\<forall>i \<in> {1..<length h}. key (h ! ((i - 1) div 2)) \<le> key (h ! i))"

definition hole_up :: "task list \<Rightarrow> nat \<Rightarrow> task \<Rightarrow> bool" where
  "hole_up h pos x \<longleftrightarrow>
     pos < length h \<and>
     (\<forall>i. 0 < i \<and> i < length h \<and> i \<noteq> pos \<longrightarrow>
          key ((h[pos := x]) ! ((i - 1) div 2)) \<le> key ((h[pos := x]) ! i)) \<and>
     (\<forall>c. 0 < pos \<and> 0 < c \<and> c < length h \<and> (c - 1) div 2 = pos \<longrightarrow>
          key (h ! ((pos - 1) div 2)) \<le> key (h ! c))"

lemma parent_less: "0 < i \<Longrightarrow> (i - 1) div 2 < (i::nat)"
  by arith

lemma hole_up_step:
  assumes hu: "hole_up h pos x" and pos: "0 < pos"
    and lt: "key x < key (h ! ((pos - 1) div 2))"
  shows "hole_up (h[pos := h ! ((pos - 1) div 2)]) ((pos - 1) div 2) x"
proof -
  let ?pp = "(pos - 1) div 2"
  let ?h2 = "h[pos := h ! ?pp]"
  have len: "pos < length h" using hu by (simp add: hole_up_def)
  have pp: "?pp < pos" using pos by arith
  have edges: "\<And>i. 0 < i \<Longrightarrow> i < length h \<Longrightarrow> i \<noteq> pos \<Longrightarrow>
          key ((h[pos := x]) ! ((i - 1) div 2)) \<le> key ((h[pos := x]) ! i)"
    using hu by (simp add: hole_up_def)
  have gp: "\<And>c. 0 < c \<Longrightarrow> c < length h \<Longrightarrow> (c - 1) div 2 = pos \<Longrightarrow>
          key (h ! ?pp) \<le> key (h ! c)"
    using hu pos by (simp add: hole_up_def)
  show ?thesis
    unfolding hole_up_def
  proof (intro conjI allI impI)
    show "?pp < length ?h2" using pp len by simp
  next
    fix i
    assume a: "0 < i \<and> i < length ?h2 \<and> i \<noteq> ?pp"
    then have i0: "0 < i" and il: "i < length h" and ipp: "i \<noteq> ?pp" by simp_all
    let ?pi = "(i - 1) div 2"
    have pil: "?pi < i" using i0 by arith
    show "key ((?h2[?pp := x]) ! ?pi) \<le> key ((?h2[?pp := x]) ! i)"
    proof (cases "i = pos")
      case True
      then show ?thesis using lt len pp by (simp add: less_imp_le)
    next
      case ip: False
      have vi: "(?h2[?pp := x]) ! i = h ! i" using ip ipp il by simp
      show ?thesis
      proof (cases "?pi = pos")
        case True
        then have "(?h2[?pp := x]) ! ?pi = h ! ?pp" using len pp by simp
        then show ?thesis using gp [OF i0 il True] vi by simp
      next
        case pip: False
        show ?thesis
        proof (cases "?pi = ?pp")
          case True
          then have v: "(?h2[?pp := x]) ! ?pi = x" using len pp by simp
          have "key (h ! ?pp) \<le> key (h ! i)"
            using edges [OF i0 il ip] True ip pip pp by (simp add: nth_list_update)
          then show ?thesis using v vi lt by simp
        next
          case False
          then have "(?h2[?pp := x]) ! ?pi = h ! ?pi" using pip by simp
          moreover have "(h[pos := x]) ! ?pi = h ! ?pi" using pip by simp
          moreover have "(h[pos := x]) ! i = h ! i" using ip by simp
          ultimately show ?thesis using edges [OF i0 il ip] vi by simp
        qed
      qed
    qed
  next
    fix c
    assume a: "0 < ?pp \<and> 0 < c \<and> c < length ?h2 \<and> (c - 1) div 2 = ?pp"
    then have c0: "0 < c" and cl: "c < length h" and cp: "(c - 1) div 2 = ?pp" and pp0: "0 < ?pp"
      by simp_all
    have ppl: "?pp < length h" using pp len by simp
    have e1: "key (h ! ((?pp - 1) div 2)) \<le> key (h ! ?pp)"
      using edges [OF pp0 ppl] pp pos by (simp add: nth_list_update)
    have gpp: "(?pp - 1) div 2 < ?pp" using pp0 by arith
    have g2: "?h2 ! ((?pp - 1) div 2) = h ! ((?pp - 1) div 2)" using gpp pp by simp
    show "key (?h2 ! ((?pp - 1) div 2)) \<le> key (?h2 ! c)"
    proof (cases "c = pos")
      case True
      then show ?thesis using e1 g2 len by simp
    next
      case False
      then have "?h2 ! c = h ! c" by simp
      moreover have "key (h ! ?pp) \<le> key (h ! c)"
        using edges [OF c0 cl False] cp False pp by (simp add: nth_list_update)
      ultimately show ?thesis using e1 g2 by simp
    qed
  qed
qed

lemma hole_up_done:
  assumes hu: "hole_up h pos x"
    and stop: "pos = 0 \<or> \<not> key x < key (h ! ((pos - 1) div 2))"
  shows "heap_inv (h[pos := x])"
  unfolding heap_inv_def
proof
  fix i
  assume "i \<in> {1..<length (h[pos := x])}"
  then have i0: "0 < i" and il: "i < length h" by simp_all
  show "key ((h[pos := x]) ! ((i - 1) div 2)) \<le> key ((h[pos := x]) ! i)"
  proof (cases "i = pos")
    case False
    then show ?thesis using hu i0 il by (simp add: hole_up_def)
  next
    case True
    then have "(i - 1) div 2 \<noteq> pos" using i0 by arith
    then show ?thesis using True stop i0 il by (simp add: not_less)
  qed
qed

lemma heap_inv_siftdown_loop:
  "hole_up h pos x \<Longrightarrow> heap_inv (siftdown_loop h 0 pos x)"
proof (induction h "0::nat" pos x rule: siftdown_loop.induct)
  case (1 heap pos newitem)
  show ?case
  proof (cases "0 < pos \<and> task_lt newitem (heap ! ((pos - 1) div 2))")
    case True
    then have "hole_up (heap[pos := heap ! ((pos - 1) div 2)]) ((pos - 1) div 2) newitem"
      using hole_up_step [OF "1.prems"] by (simp add: task_lt_key)
    then have "heap_inv (siftdown_loop (heap[pos := heap ! ((pos - 1) div 2)]) 0 ((pos - 1) div 2) newitem)"
      using "1.hyps" True by simp
    then show ?thesis using True by (subst siftdown_loop.simps) (simp add: Let_def)
  next
    case False
    then have "siftdown_loop heap 0 pos newitem = heap[pos := newitem]"
      by (subst siftdown_loop.simps) (auto simp add: Let_def)
    moreover have "heap_inv (heap[pos := newitem])"
      using hole_up_done [OF "1.prems"] False by (auto simp add: task_lt_key)
    ultimately show ?thesis by simp
  qed
qed

lemma mset_swap_hole:
  assumes "pos < length h" and "pp < length h" and "pp \<noteq> pos"
  shows "mset (h[pos := h ! pp, pp := x]) = mset (h[pos := x])"
proof -
  let ?g = "h[pos := x]"
  have e: "?g[pos := ?g ! pp, pp := ?g ! pos] = h[pos := h ! pp, pp := x]"
    using assms by simp
  have m: "mset (?g[pos := ?g ! pp, pp := ?g ! pos]) = mset ?g"
    using assms by (intro mset_swap) simp_all
  show ?thesis using m unfolding e .
qed

lemma mset_siftdown_loop:
  "pos < length h \<Longrightarrow> mset (siftdown_loop h startpos pos x) = mset (h[pos := x])"
proof (induction h startpos pos x rule: siftdown_loop.induct)
  case (1 heap startpos pos newitem)
  show ?case
  proof (cases "startpos < pos \<and> task_lt newitem (heap ! ((pos - 1) div 2))")
    case True
    let ?pp = "(pos - 1) div 2"
    have pp: "?pp < pos" using True by arith
    have "mset (siftdown_loop (heap[pos := heap ! ?pp]) startpos ?pp newitem)
            = mset (heap[pos := heap ! ?pp, ?pp := newitem])"
      using "1.IH" True pp "1.prems" by simp
    also have "\<dots> = mset (heap[pos := newitem])"
      using mset_swap_hole [of pos heap ?pp newitem] pp "1.prems" by simp
    finally show ?thesis using True by (subst siftdown_loop.simps) (simp add: Let_def)
  next
    case False
    then show ?thesis by (subst siftdown_loop.simps) (auto simp add: Let_def)
  qed
qed

text \<open>
  While \<^verbatim>\<open>_siftup\<close> moves the hole down, every entry but the children of the hole is at
  least its parent, and the children of the hole are at least the parent of the hole.
\<close>

definition hole_down :: "task list \<Rightarrow> nat \<Rightarrow> bool" where
  "hole_down h pos \<longleftrightarrow>
     (\<forall>i. 0 < i \<and> i < length h \<and> (i - 1) div 2 \<noteq> pos \<longrightarrow>
          key (h ! ((i - 1) div 2)) \<le> key (h ! i)) \<and>
     (\<forall>c. 0 < pos \<and> 0 < c \<and> c < length h \<and> (c - 1) div 2 = pos \<longrightarrow>
          key (h ! ((pos - 1) div 2)) \<le> key (h ! c))"

lemma child_cases:
  "0 < d \<Longrightarrow> (d - 1) div 2 = pos \<Longrightarrow> d = 2 * pos + 1 \<or> d = 2 * pos + (2::nat)"
  by arith

lemma hole_down_step:
  assumes hd: "hole_down h pos"
    and c1: "2 * pos + 1 < length h"
    and c: "c = (if 2 * pos + 2 < length h \<and> \<not> key (h ! (2 * pos + 1)) < key (h ! (2 * pos + 2))
                 then 2 * pos + 2 else 2 * pos + 1)"
  shows "hole_down (h[pos := h ! c]) c"
proof -
  let ?h2 = "h[pos := h ! c]"
  have cl: "c < length h" and cpos: "pos < c" and pc: "(c - 1) div 2 = pos" and c0: "0 < c"
    using c c1 by (auto split: if_splits)
  have minc: "\<And>d. 0 < d \<Longrightarrow> d < length h \<Longrightarrow> (d - 1) div 2 = pos \<Longrightarrow> key (h ! c) \<le> key (h ! d)"
  proof -
    fix d assume d: "0 < d" "d < length h" "(d - 1) div 2 = pos"
    then consider "d = 2 * pos + 1" | "d = 2 * pos + 2" using child_cases by blast
    then show "key (h ! c) \<le> key (h ! d)"
    proof cases
      case 1
      then show ?thesis using c by (auto simp add: not_less)
    next
      case 2
      then show ?thesis using c d by (auto simp add: not_less less_imp_le)
    qed
  qed
  have edges: "\<And>i. 0 < i \<Longrightarrow> i < length h \<Longrightarrow> (i - 1) div 2 \<noteq> pos \<Longrightarrow>
          key (h ! ((i - 1) div 2)) \<le> key (h ! i)"
    using hd by (simp add: hole_down_def)
  have gp: "\<And>d. 0 < pos \<Longrightarrow> 0 < d \<Longrightarrow> d < length h \<Longrightarrow> (d - 1) div 2 = pos \<Longrightarrow>
          key (h ! ((pos - 1) div 2)) \<le> key (h ! d)"
    using hd by (simp add: hole_down_def)
  have posl: "pos < length h" using cpos cl by simp
  show ?thesis
    unfolding hole_down_def
  proof (intro conjI allI impI)
    fix i
    assume "0 < i \<and> i < length ?h2 \<and> (i - 1) div 2 \<noteq> c"
    then have i0: "0 < i" and il: "i < length h" and pic: "(i - 1) div 2 \<noteq> c" by simp_all
    let ?pi = "(i - 1) div 2"
    have pil: "?pi < i" using i0 by arith
    show "key (?h2 ! ?pi) \<le> key (?h2 ! i)"
    proof (cases "i = pos")
      case True
      then have "?pi \<noteq> pos" using pil by simp
      then have "?h2 ! ?pi = h ! ((pos - 1) div 2)" using True by simp
      moreover have "?h2 ! i = h ! c" using True posl by simp
      ultimately show ?thesis using gp [OF _ c0 cl pc] i0 True by simp
    next
      case ip: False
      then have vi: "?h2 ! i = h ! i" by simp
      show ?thesis
      proof (cases "?pi = pos")
        case True
        then have "?h2 ! ?pi = h ! c" using posl by simp
        then show ?thesis using minc [OF i0 il True] vi by simp
      next
        case False
        then have "?h2 ! ?pi = h ! ?pi" by simp
        then show ?thesis using edges [OF i0 il False] vi by simp
      qed
    qed
  next
    fix e
    assume "0 < c \<and> 0 < e \<and> e < length ?h2 \<and> (e - 1) div 2 = c"
    then have e0: "0 < e" and el: "e < length h" and pe: "(e - 1) div 2 = c" by simp_all
    have "c < e" using e0 pe by arith
    then have epos: "e \<noteq> pos" using cpos by simp
    have "(e - 1) div 2 \<noteq> pos" using pe cpos by simp
    then have "key (h ! c) \<le> key (h ! e)" using edges [OF e0 el] pe by simp
    moreover have "?h2 ! ((c - 1) div 2) = h ! c" using pc posl by simp
    moreover have "?h2 ! e = h ! e" using epos by simp
    ultimately show "key (?h2 ! ((c - 1) div 2)) \<le> key (?h2 ! e)" by simp
  qed
qed

lemma siftup_loop_inv:
  "endpos = length h \<Longrightarrow> pos < length h \<Longrightarrow> hole_down h pos \<Longrightarrow>
   siftup_loop h endpos pos = (h', p') \<Longrightarrow>
   length h' = length h \<and> p' < length h \<and> length h \<le> 2 * p' + 1 \<and> hole_down h' p'"
proof (induction h endpos pos arbitrary: h' p' rule: siftup_loop.induct)
  case (1 heap endpos pos)
  show ?case
  proof (cases "2 * pos + 1 < endpos")
    case False
    then have "siftup_loop heap endpos pos = (heap, pos)"
      by (subst siftup_loop.simps) (simp add: Let_def)
    then show ?thesis using "1.prems" False by auto
  next
    case True
    define c where "c = (if 2 * pos + 2 < length heap \<and>
                            \<not> key (heap ! (2 * pos + 1)) < key (heap ! (2 * pos + 2))
                         then 2 * pos + 2 else 2 * pos + 1)"
    have cl: "c < length heap" using c_def True "1.prems"(1) by (auto split: if_splits)
    have ceq: "(if 2 * pos + 1 + 1 < endpos \<and>
                   \<not> task_lt (heap ! (2 * pos + 1)) (heap ! (2 * pos + 1 + 1))
                then 2 * pos + 1 + 1 else 2 * pos + 1) = c"
      using c_def "1.prems"(1) by (simp add: task_lt_key)
    have unf: "siftup_loop heap endpos pos = siftup_loop (heap[pos := heap ! c]) endpos c"
      by (subst siftup_loop.simps) (simp only: Let_def True if_True ceq)
    have hd2: "hole_down (heap[pos := heap ! c]) c"
      using hole_down_step [OF "1.prems"(3) _ c_def] True "1.prems"(1) by simp
    note ih = "1.IH" [OF refl True refl refl, unfolded ceq]
    have "length h' = length (heap[pos := heap ! c]) \<and> p' < length (heap[pos := heap ! c]) \<and>
          length (heap[pos := heap ! c]) \<le> 2 * p' + 1 \<and> hole_down h' p'"
    proof (rule ih)
      show "endpos = length (heap[pos := heap ! c])" using "1.prems"(1) by simp
      show "c < length (heap[pos := heap ! c])" using cl by simp
      show "hole_down (heap[pos := heap ! c]) c" by (rule hd2)
      show "siftup_loop (heap[pos := heap ! c]) endpos c = (h', p')"
        using unf "1.prems"(4) by simp
    qed
    then show ?thesis by simp
  qed
qed

lemma mset_siftup_loop:
  "endpos = length h \<Longrightarrow> pos < length h \<Longrightarrow> siftup_loop h endpos pos = (h', p') \<Longrightarrow>
   mset (h'[p' := x]) = mset (h[pos := x])"
proof (induction h endpos pos arbitrary: h' p' rule: siftup_loop.induct)
  case (1 heap endpos pos)
  show ?case
  proof (cases "2 * pos + 1 < endpos")
    case False
    then have "siftup_loop heap endpos pos = (heap, pos)"
      by (subst siftup_loop.simps) (simp add: Let_def)
    then show ?thesis using "1.prems" by auto
  next
    case True
    define c where "c = (if 2 * pos + 1 + 1 < endpos \<and>
                   \<not> task_lt (heap ! (2 * pos + 1)) (heap ! (2 * pos + 1 + 1))
                then 2 * pos + 1 + 1 else 2 * pos + 1)"
    have cl: "c < length heap" and cpos: "c \<noteq> pos"
      using c_def True "1.prems"(1) by (auto split: if_splits)
    have unf: "siftup_loop heap endpos pos = siftup_loop (heap[pos := heap ! c]) endpos c"
      by (subst siftup_loop.simps) (simp only: Let_def True if_True c_def [symmetric])
    note ih = "1.IH" [OF refl True refl refl, folded c_def]
    have "mset (h'[p' := x]) = mset ((heap[pos := heap ! c])[c := x])"
    proof (rule ih)
      show "endpos = length (heap[pos := heap ! c])" using "1.prems"(1) by simp
      show "c < length (heap[pos := heap ! c])" using cl by simp
      show "siftup_loop (heap[pos := heap ! c]) endpos c = (h', p')"
        using unf "1.prems"(3) by simp
    qed
    also have "\<dots> = mset (heap[pos := x])"
      using mset_swap_hole [of pos heap c x] cl cpos "1.prems"(2) by simp
    finally show ?thesis .
  qed
qed

lemma leaf_hole_up:
  assumes "hole_down h p" and "p < length h" and "length h \<le> 2 * p + 1"
  shows "hole_up (h[p := x]) p x"
  unfolding hole_up_def
proof (intro conjI allI impI)
  show "p < length (h[p := x])" using assms by simp
next
  fix i
  assume "0 < i \<and> i < length (h[p := x]) \<and> i \<noteq> p"
  then have i0: "0 < i" and il: "i < length h" and ip: "i \<noteq> p" by simp_all
  have pip: "(i - 1) div 2 \<noteq> p" using il assms(3) i0 by arith
  then have "key (h ! ((i - 1) div 2)) \<le> key (h ! i)"
    using assms(1) i0 il by (simp add: hole_down_def)
  then show "key (h[p := x, p := x] ! ((i - 1) div 2)) \<le> key (h[p := x, p := x] ! i)"
    using ip pip by simp
next
  fix c
  assume "0 < p \<and> 0 < c \<and> c < length (h[p := x]) \<and> (c - 1) div 2 = p"
  then have False using assms(3) by (simp, arith)
  then show "key (h[p := x] ! ((p - 1) div 2)) \<le> key (h[p := x] ! c)" ..
qed

lemma siftup_root:
  assumes "h \<noteq> []" and "hole_down h 0"
  shows "heap_inv (siftup h 0) \<and> mset (siftup h 0) = mset h"
proof -
  obtain h1 p1 where sl: "siftup_loop h (length h) 0 = (h1, p1)"
    by (cases "siftup_loop h (length h) 0")
  have l0: "0 < length h" using assms(1) by simp
  from siftup_loop_inv [OF refl l0 assms(2) sl]
  have len: "length h1 = length h" and p1: "p1 < length h" and leaf: "length h \<le> 2 * p1 + 1"
    and hd: "hole_down h1 p1" by simp_all
  let ?x = "h ! 0"
  have eq: "siftup h 0 = siftdown_loop (h1[p1 := ?x]) 0 p1 ?x"
    using sl p1 len by (simp add: siftup_def siftdown_def Let_def)
  have hu: "hole_up (h1[p1 := ?x]) p1 ?x"
    using leaf_hole_up [OF hd] p1 leaf len by simp
  have inv: "heap_inv (siftup h 0)"
    unfolding eq by (rule heap_inv_siftdown_loop [OF hu])
  have "mset (siftup h 0) = mset ((h1[p1 := ?x])[p1 := ?x])"
    unfolding eq using p1 len by (intro mset_siftdown_loop) simp
  also have "\<dots> = mset (h1[p1 := ?x])" by simp
  also have "\<dots> = mset (h[0 := ?x])" by (rule mset_siftup_loop [OF refl l0 sl])
  also have "\<dots> = mset h" by simp
  finally show ?thesis using inv by simp
qed

lemma heappush_heap:
  assumes "heap_inv h"
  shows "heap_inv (heappush h x) \<and> mset (heappush h x) = mset h + {#x#}"
proof -
  let ?g = "h @ [x]"
  have eq: "heappush h x = siftdown_loop ?g 0 (length h) x"
    by (simp add: heappush_def siftdown_def)
  have gx: "?g[length h := x] = ?g" by simp
  have hu: "hole_up ?g (length h) x"
    unfolding hole_up_def gx
  proof (intro conjI allI impI)
    show "length h < length ?g" by simp
  next
    fix i
    assume "0 < i \<and> i < length ?g \<and> i \<noteq> length h"
    then have i0: "0 < i" and il: "i < length h" by simp_all
    have "(i - 1) div 2 < length h" using il by arith
    moreover have "key (h ! ((i - 1) div 2)) \<le> key (h ! i)"
      using assms i0 il by (simp add: heap_inv_def)
    ultimately show "key (?g ! ((i - 1) div 2)) \<le> key (?g ! i)"
      using il by (simp add: nth_append)
  next
    fix c
    assume "0 < length h \<and> 0 < c \<and> c < length ?g \<and> (c - 1) div 2 = length h"
    then have False by (simp, arith)
    then show "key (?g ! ((length h - 1) div 2)) \<le> key (?g ! c)" ..
  qed
  have "heap_inv (heappush h x)" unfolding eq by (rule heap_inv_siftdown_loop [OF hu])
  moreover have "mset (heappush h x) = mset (?g[length h := x])"
    unfolding eq by (intro mset_siftdown_loop) simp
  ultimately show ?thesis by simp
qed

lemma heappop_heap:
  assumes "heap_inv h" and "h \<noteq> []"
  shows "\<exists>rest. heappop h = Inr (h ! 0, rest) \<and> heap_inv rest \<and> mset rest + {#h ! 0#} = mset h"
proof (cases "butlast h = []")
  case True
  then obtain a where h: "h = [a]" using assms(2)
    by (metis append_butlast_last_id append_Nil)
  show ?thesis using h by (simp add: heappop_def heap_inv_def)
next
  case False
  let ?h1 = "butlast h"
  let ?l = "last h"
  let ?g = "?h1[0 := ?l]"
  have hsplit: "h = ?h1 @ [?l]" using assms(2) by simp
  have l1: "length ?h1 = length h - 1" by simp
  have g0: "?g \<noteq> []" using False by simp
  have "0 < length ?h1" using False by (simp del: length_butlast)
  then have root: "?h1 ! 0 = h ! 0" by (rule nth_butlast)
  have hd: "hole_down ?g 0"
    unfolding hole_down_def
  proof (intro conjI allI impI)
    fix i
    assume "0 < i \<and> i < length ?g \<and> (i - 1) div 2 \<noteq> 0"
    then have i0: "0 < i" and il: "i < length ?h1" and pi: "(i - 1) div 2 \<noteq> 0" by simp_all
    have pil: "(i - 1) div 2 < length ?h1" using il by arith
    have "key (h ! ((i - 1) div 2)) \<le> key (h ! i)"
      using assms(1) i0 il by (simp add: heap_inv_def)
    then show "key (?g ! ((i - 1) div 2)) \<le> key (?g ! i)"
      using i0 il pi pil by (simp add: nth_butlast)
  next
    fix c
    assume "(0::nat) < 0 \<and> 0 < c \<and> c < length ?g \<and> (c - 1) div 2 = 0"
    then show "key (?g ! ((0 - 1) div 2)) \<le> key (?g ! c)" by simp
  qed
  from siftup_root [OF g0 hd]
  have inv: "heap_inv (siftup ?g 0)" and ms: "mset (siftup ?g 0) = mset ?g" by simp_all
  have pop: "heappop h = Inr (h ! 0, siftup ?g 0)"
    using assms(2) False root by (simp add: heappop_def Let_def)
  have "mset ?g + {#h ! 0#} = mset ?h1 + {#?l#}"
    using False root by (cases ?h1) simp_all
  also have "\<dots> = mset h" by (subst (2) hsplit) simp
  finally have "mset (siftup ?g 0) + {#h ! 0#} = mset h" using ms by simp
  then show ?thesis using pop inv by blast
qed




lemma heap_inv_Nil: "heap_inv []"
  by (simp add: heap_inv_def)








section \<open>The lifecycle tracker: properties\<close>

text \<open>
  C4. Calling \<^verbatim>\<open>wait_for_jobs_to_complete\<close> with \<^verbatim>\<open>others = None\<close> while no task is deployed
  returns at once, whatever the bound on the number of passes: the state that comes back
  is the state that went in, so there was no sleep and no status query, and the pending,
  deployed and completed tasks are unchanged.
\<close>

theorem wait_on_empty_deployed:
  "deployed_tasks self = {} \<Longrightarrow> wait_for_jobs_to_complete fuel e None self = Some self"
  by (cases fuel) (simp_all add: wait_for_jobs_to_complete_def seed_historical_def)

theorem wait_on_empty_deployed_witness:
  "wait_for_jobs_to_complete 0 env_ok None
     ((new_orchestrator None)\<lparr>pending_tasks := [mk_task ''a'' 1 0 Federated 10],
                              completed_tasks := {mk_task ''b'' 1 1 Federated 50}\<rparr>)
   = Some ((new_orchestrator None)\<lparr>pending_tasks := [mk_task ''a'' 1 0 Federated 10],
                              completed_tasks := {mk_task ''b'' 1 1 Federated 50}\<rparr>)"
  using wait_on_empty_deployed
    [of "(new_orchestrator None)\<lparr>pending_tasks := [mk_task ''a'' 1 0 Federated 10],
                                 completed_tasks := {mk_task ''b'' 1 1 Federated 50}\<rparr>"
        0 env_ok]
  by (simp add: new_orchestrator_def)

lemma deployed_poll_iteration_subset:
  "deployed_tasks (poll_iteration e self) \<subseteq> deployed_tasks self"
  by (auto simp add: poll_iteration_def)

lemma completed_poll_iteration_superset:
  "completed_tasks self \<subseteq> completed_tasks (poll_iteration e self)"
  by (auto simp add: poll_iteration_def)

lemma deployed_funpow_poll_subset:
  "deployed_tasks ((poll_iteration e ^^ k) self) \<subseteq> deployed_tasks self"
proof (induction k)
  case 0
  show ?case by simp
next
  case (Suc k)
  have "deployed_tasks (poll_iteration e ((poll_iteration e ^^ k) self))
          \<subseteq> deployed_tasks ((poll_iteration e ^^ k) self)"
    by (rule deployed_poll_iteration_subset)
  with Suc show ?case by auto
qed

lemma completed_funpow_poll_superset:
  "completed_tasks self \<subseteq> completed_tasks ((poll_iteration e ^^ k) self)"
proof (induction k)
  case 0
  show ?case by simp
next
  case (Suc k)
  have "completed_tasks ((poll_iteration e ^^ k) self)
          \<subseteq> completed_tasks (poll_iteration e ((poll_iteration e ^^ k) self))"
    by (rule completed_poll_iteration_superset)
  with Suc show ?case by auto
qed

text \<open>
  C2. In a pass of the polling loop, for a deployed task \<open>t\<close>: when the status query
  raises, \<open>t\<close> stays deployed and is not completed by this pass, the loop goes on to the
  next pass (nothing is raised to the caller: the loop has no exceptional result), and the
  next pass queries \<open>t\<close> again, at the next tick of the clock; when the query returns a
  terminal status, the pass takes \<open>t\<close> out of the deployed tasks and puts it into the
  completed ones, and no later pass finds it among the deployed tasks, which are the
  tasks a pass polls.
\<close>

theorem poll_iteration_retry_or_move:
  assumes "t \<in> deployed_tasks self"
  shows "(get_job_status e (sleeps self) (''trainjob-'' @ task_id t) ''test'' = Fails \<longrightarrow>
            t \<in> deployed_tasks (poll_iteration e self) \<and>
            (t \<in> completed_tasks (poll_iteration e self) \<longleftrightarrow> t \<in> completed_tasks self) \<and>
            wait_loop (Suc n) e self = wait_loop n e (poll_iteration e self) \<and>
            (t \<in> task_to_move e (poll_iteration e self) \<longleftrightarrow>
               is_finished (job_status_of e (Suc (sleeps self)) t))) \<and>
         (\<forall>s. get_job_status e (sleeps self) (''trainjob-'' @ task_id t) ''test'' = Replies (Some s) \<and>
              s \<in> terminal_statuses \<longrightarrow>
            t \<notin> deployed_tasks (poll_iteration e self) \<and>
            t \<in> completed_tasks (poll_iteration e self) \<and>
            (\<forall>k. t \<notin> deployed_tasks ((poll_iteration e ^^ k) (poll_iteration e self)) \<and>
                 t \<in> completed_tasks ((poll_iteration e ^^ k) (poll_iteration e self))))"
proof (intro conjI impI allI)
  assume f: "get_job_status e (sleeps self) (''trainjob-'' @ task_id t) ''test'' = Fails"
  then have nm: "t \<notin> task_to_move e self"
    by (simp add: task_to_move_def job_status_of_def is_finished_def)
  show "t \<in> deployed_tasks (poll_iteration e self)"
    using assms nm by (simp add: poll_iteration_def)
  show "t \<in> completed_tasks (poll_iteration e self) \<longleftrightarrow> t \<in> completed_tasks self"
    using nm by (simp add: poll_iteration_def)
  show "wait_loop (Suc n) e self = wait_loop n e (poll_iteration e self)"
    using assms by auto
  show "t \<in> task_to_move e (poll_iteration e self) \<longleftrightarrow>
          is_finished (job_status_of e (Suc (sleeps self)) t)"
    using assms nm by (simp add: task_to_move_def poll_iteration_def)
next
  fix s
  assume "get_job_status e (sleeps self) (''trainjob-'' @ task_id t) ''test'' = Replies (Some s) \<and>
          s \<in> terminal_statuses"
  then have m: "t \<in> task_to_move e self"
    using assms
    by (auto simp add: task_to_move_def job_status_of_def is_finished_def terminal_statuses_def)
  show nd: "t \<notin> deployed_tasks (poll_iteration e self)"
    using m by (simp add: poll_iteration_def)
  show c: "t \<in> completed_tasks (poll_iteration e self)"
    using m by (simp add: poll_iteration_def)
  fix k
  show "t \<notin> deployed_tasks ((poll_iteration e ^^ k) (poll_iteration e self))"
    using nd deployed_funpow_poll_subset [where e = e and k = k and self = "poll_iteration e self"]
    by auto
  show "t \<in> completed_tasks ((poll_iteration e ^^ k) (poll_iteration e self))"
    using c completed_funpow_poll_superset [where e = e and k = k and self = "poll_iteration e self"]
    by auto
qed

theorem poll_iteration_retry_or_move_witness:
  "mk_task ''a'' 1 0 Federated 10 \<in> deployed_tasks (poll_iteration env_retry st_two) \<and>
   wait_loop (Suc 5) env_retry st_two = wait_loop 5 env_retry (poll_iteration env_retry st_two) \<and>
   mk_task ''b'' 2 1 Distributed 10 \<notin> deployed_tasks (poll_iteration env_retry st_two) \<and>
   mk_task ''b'' 2 1 Distributed 10 \<in> completed_tasks (poll_iteration env_retry st_two) \<and>
   mk_task ''b'' 2 1 Distributed 10
     \<notin> deployed_tasks ((poll_iteration env_retry ^^ 3) (poll_iteration env_retry st_two))"
proof -
  have ha: "mk_task ''a'' 1 0 Federated 10 \<in> deployed_tasks st_two"
    and hb: "mk_task ''b'' 2 1 Distributed 10 \<in> deployed_tasks st_two"
    by (simp_all add: st_two_def new_orchestrator_def)
  have fa: "get_job_status env_retry (sleeps st_two)
              (''trainjob-'' @ task_id (mk_task ''a'' 1 0 Federated 10)) ''test'' = Fails"
    by (simp add: env_retry_def st_two_def new_orchestrator_def mk_task_def)
  have fb: "get_job_status env_retry (sleeps st_two)
              (''trainjob-'' @ task_id (mk_task ''b'' 2 1 Distributed 10)) ''test''
              = Replies (Some ''Failed'') \<and> ''Failed'' \<in> terminal_statuses"
    by (simp add: env_retry_def st_two_def new_orchestrator_def mk_task_def terminal_statuses_def)
  from poll_iteration_retry_or_move [OF ha, of env_retry 5] fa
  have a: "mk_task ''a'' 1 0 Federated 10 \<in> deployed_tasks (poll_iteration env_retry st_two) \<and>
           wait_loop (Suc 5) env_retry st_two = wait_loop 5 env_retry (poll_iteration env_retry st_two)"
    by blast
  from poll_iteration_retry_or_move [OF hb, of env_retry 5] fb
  have b: "mk_task ''b'' 2 1 Distributed 10 \<notin> deployed_tasks (poll_iteration env_retry st_two) \<and>
           mk_task ''b'' 2 1 Distributed 10 \<in> completed_tasks (poll_iteration env_retry st_two) \<and>
           mk_task ''b'' 2 1 Distributed 10
             \<notin> deployed_tasks ((poll_iteration env_retry ^^ 3) (poll_iteration env_retry st_two))"
    by blast
  from a b show ?thesis by blast
qed

text \<open>
  Scenario B of the specification in this cluster: the job of task \<open>a\<close> is not visible for
  five polls, and the wait ends after six passes with both tasks completed; five passes
  are not enough.
\<close>

lemma wait_loop_retry_example:
  "wait_loop 6 env_retry st_two =
     Some (st_two\<lparr>deployed_tasks := {},
                  completed_tasks := {mk_task ''a'' 1 0 Federated 10, mk_task ''b'' 2 1 Distributed 10},
                  sleeps := 6,
                  status_queries := {(''trainjob-a'', ''test''), (''trainjob-b'', ''test'')}\<rparr>) \<and>
   wait_loop 5 env_retry st_two = None"
  by code_simp








text \<open>
  The two namespaces at work: under a configuration whose namespace is \<^verbatim>\<open>prod\<close>, the job
  of an arrival is created in \<^verbatim>\<open>prod\<close>, where the cluster \<open>env_ok\<close> knows no status of it,
  and the tracker completes the task from what the namespace \<^verbatim>\<open>test\<close> says.
\<close>

lemma simulated_run_prod_example:
  "SimulatedOrchestrator_run 5 env_ok cfg_par False 1 [[mk_arrival 1 0 Federated 10]]
       (new_orchestrator None)
     = Some (Inr ((new_orchestrator None)
          \<lparr>completed_tasks := {mk_task ''uuid-0'' 1 0 Federated 10},
           sleeps := 2, uuid_draws := 1,
           status_queries := {(''trainjob-uuid-0'', ''test'')},
           config_maps_created := [(''prod'', ''master-uuid-0-1''), (''prod'', ''worker-uuid-0-1'')],
           jobs_created := [(''prod'', ''uuid-0'')]\<rparr>)) \<and>
   get_job_status env_ok 1 ''trainjob-uuid-0'' ''prod'' = Fails"
  by code_simp

section \<open>Budget-adaptive epoch assignment: properties\<close>







lemma floor_scenario_c: "\<lfloor>(1638092::rat) / 270135\<rfloor> = 6"
  by (simp add: floor_eq_iff)

text \<open>
  C8. With \<^verbatim>\<open>total_time = 100\<close> and exactly one pending task that requests 10 epochs, the
  estimated time of that task is 266.9721, the time left for a new task is negative, and
  \<^verbatim>\<open>_optimize_epochs\<close> gives any new task (one requesting 50 epochs in particular) the
  epoch budget 1.
\<close>

theorem scenario_c_budget_one:
  assumes "total_time self = Some 100" and "pending_tasks self = [p]" and "total_epochs p = 10"
  shows "estimated_time p = 2669721 / 10000 \<and>
         100 - current_queue_time (pending_tasks self) < 0 \<and>
         optimize_epochs self t = Inr (t\<lparr>epoch_budget := 1\<rparr>)"
  using assms
  by (simp add: optimize_epochs_def current_queue_time_def estimated_time_def estimate_epochs_def
        py_int_def INTERCEPT_def SLOPE_def BASE_EPOCHS_def set_epochs_def ceiling_def
        floor_scenario_c)

theorem scenario_c_budget_one_witness:
  "optimize_epochs
       ((new_orchestrator (Some 100))\<lparr>pending_tasks := [mk_task ''a'' 1 0 Federated 10]\<rparr>)
       (mk_task ''b'' 1 1 Federated 50)
     = Inr (mk_task ''b'' 1 1 Federated 1\<lparr>total_epochs := 50\<rparr>)"
  using scenario_c_budget_one
    [of "(new_orchestrator (Some 100))\<lparr>pending_tasks := [mk_task ''a'' 1 0 Federated 10]\<rparr>"
        "mk_task ''a'' 1 0 Federated 10" "mk_task ''b'' 1 1 Federated 50"]
  by (simp add: new_orchestrator_def mk_task_def)

text \<open>
  C9. Nothing in the orchestrator classes assigns \<^verbatim>\<open>total_time\<close>. On an orchestrator
  without that attribute (the state after the constructor, when the base class outside
  the sources provides none), every call of \<^verbatim>\<open>_optimize_epochs\<close> raises
  \<^verbatim>\<open>AttributeError\<close>, and so does the run of the budget-adaptive policy as soon as it
  admits its first arrival: one identifier has been drawn, nothing is pending.
\<close>

theorem optimize_epochs_without_total_time:
  assumes "total_time self = None"
  shows "optimize_epochs self t = Inl AttributeError \<and>
         (arr_experiment_type arr = Federated \<or> arr_experiment_type arr = Distributed \<longrightarrow>
            OptimizedSimulatedOrchestrator_run fuel e config False repl ((arr # arrs) # batches) self
              = Some (Inl (AttributeError,
                           self\<lparr>alive := True, uuid_draws := Suc (uuid_draws self)\<rparr>)))"
  using assms
  by (auto simp add: optimize_epochs_def OptimizedSimulatedOrchestrator_run_def policy_run_def
        generate_task_def build_def Let_def)

theorem optimize_epochs_without_total_time_witness:
  "total_time (new_orchestrator None) = None \<and>
   optimize_epochs (new_orchestrator None) (mk_task ''a'' 1 0 Federated 10) = Inl AttributeError \<and>
   OptimizedSimulatedOrchestrator_run 3 env_ok cfg_seq False 1
       [[mk_arrival 1 0 Federated 10, mk_arrival 2 1 Distributed 10]] (new_orchestrator None)
     = Some (Inl (AttributeError, (new_orchestrator None)\<lparr>alive := True, uuid_draws := 1\<rparr>))"
proof -
  have h: "total_time (new_orchestrator None) = None"
    by (simp add: new_orchestrator_def)
  have k: "arr_experiment_type (mk_arrival 1 0 Federated 10) = Federated"
    by (simp add: mk_arrival_def)
  from optimize_epochs_without_total_time [OF h, of "mk_task ''a'' 1 0 Federated 10"
      "mk_arrival 1 0 Federated 10" 3 env_ok cfg_seq 1 "[mk_arrival 2 1 Distributed 10]" "[]"] h k
  show ?thesis by (simp add: new_orchestrator_def)
qed

section \<open>Deployment: properties\<close>

lemma sets_create_config_maps_Inl:
  "create_config_maps e config cms self = Inl (err, self') \<Longrightarrow>
   pending_tasks self' = pending_tasks self \<and> deployed_tasks self' = deployed_tasks self \<and>
   completed_tasks self' = completed_tasks self \<and> jobs_created self' = jobs_created self \<and>
   uuid_draws self' = uuid_draws self"
  by (induction e config cms self rule: create_config_maps.induct) (auto split: if_splits)

lemma sets_create_config_maps_Inr:
  "create_config_maps e config cms self = Inr self' \<Longrightarrow>
   pending_tasks self' = pending_tasks self \<and> deployed_tasks self' = deployed_tasks self \<and>
   completed_tasks self' = completed_tasks self \<and> jobs_created self' = jobs_created self \<and>
   uuid_draws self' = uuid_draws self"
  by (induction e config cms self rule: create_config_maps.induct) (auto split: if_splits)

lemma deploy_task_Inl:
  "deploy_task e config repl t self = Inl (err, self') \<Longrightarrow>
   pending_tasks self' = pending_tasks self \<and> deployed_tasks self' = deployed_tasks self \<and>
   completed_tasks self' = completed_tasks self \<and> jobs_created self' = jobs_created self \<and>
   uuid_draws self' = uuid_draws self"
  by (auto simp add: deploy_task_def Let_def split: sum.splits prod.splits if_splits
           dest: sets_create_config_maps_Inl sets_create_config_maps_Inr)

lemma deploy_task_Inr:
  "deploy_task e config repl t self = Inr self' \<Longrightarrow>
   pending_tasks self' = pending_tasks self \<and> deployed_tasks self' = insert t (deployed_tasks self) \<and>
   completed_tasks self' = completed_tasks self \<and> uuid_draws self' = uuid_draws self"
  by (auto simp add: deploy_task_def Let_def split: sum.splits prod.splits if_splits
           dest: sets_create_config_maps_Inr)

lemma deploy_pending_first_fails:
  assumes "heappop (pending_tasks self) = Inr (curr_task, rest)"
    and "deploy_task e config repl curr_task (self\<lparr>pending_tasks := rest\<rparr>) = Inl x"
  shows "deploy_pending fuel e config repl self = Some (Inl x)"
proof -
  have "pending_tasks self \<noteq> []" using assms(1) by (auto simp add: heappop_def)
  then show ?thesis using assms by (subst deploy_pending.simps) simp
qed

lemma policy_run_deploy_fails:
  assumes "admit e batch (self0\<lparr>alive := True\<rparr>) = Inr self"
    and "deploy_pending fuel e config repl self = Some (Inl x)"
  shows "policy_run admit fuel e config False repl (batch # batches) self0 = Some (Inl x)"
  using assms by (simp add: policy_run_def)

lemma batch_run_deploy_fails:
  assumes "batch \<noteq> []"
    and "admit_arrivals e batch (self0\<lparr>alive := True, sleeps := sleeps self0 + idle\<rparr>) = Inr self"
    and "deploy_pending fuel e config repl self = Some (Inl x)"
  shows "BatchOrchestrator_run fuel e config False repl False idle batch self0 = Some (Inl x)"
  using assms by (simp add: BatchOrchestrator_run_def housekeeping_def)

lemma prepare_loop_unrecognized:
  "task_kind t \<noteq> Federated \<Longrightarrow> task_kind t \<noteq> Distributed \<Longrightarrow> tpes \<noteq> [] \<Longrightarrow>
   prepare_loop t config u_id repl tpes acc = Inl CannotHandleTask"
  by (cases tpes; cases acc) (simp_all add: render_template_def Let_def)

lemma deploy_task_unrecognized:
  "task_kind t \<noteq> Federated \<Longrightarrow> task_kind t \<noteq> Distributed \<Longrightarrow> type_map t \<noteq> [] \<Longrightarrow>
   deploy_task e config repl t self = Inl (CannotHandleTask, self)"
  by (simp add: deploy_task_def prepare_experiment_maps_def prepare_loop_unrecognized)

text \<open>
  C5, as the code has it. When the deployment of the task taken from the queue fails
  (the rendering, the registration of a config map or the submission of the job raises),
  nothing catches the exception: the deployment loop ends with it, and so does the run
  of the policy. The task taken is not put back and is not deployed, the tasks behind
  it stay in the queue, and no job is created.
\<close>

theorem deployment_failure_ends_run:
  assumes "heappop (pending_tasks self) = Inr (curr_task, rest)"
    and "deploy_task e config repl curr_task (self\<lparr>pending_tasks := rest\<rparr>) = Inl (err, self')"
  shows "deploy_pending fuel e config repl self = Some (Inl (err, self')) \<and>
         pending_tasks self' = rest \<and> deployed_tasks self' = deployed_tasks self \<and>
         completed_tasks self' = completed_tasks self \<and> jobs_created self' = jobs_created self \<and>
         (admit_arrivals e batch (self0\<lparr>alive := True\<rparr>) = Inr self \<longrightarrow>
            SimulatedOrchestrator_run fuel e config False repl (batch # batches) self0
              = Some (Inl (err, self'))) \<and>
         (batch \<noteq> [] \<and>
          admit_arrivals e batch (self0\<lparr>alive := True, sleeps := sleeps self0 + idle\<rparr>) = Inr self \<longrightarrow>
            BatchOrchestrator_run fuel e config False repl False idle batch self0
              = Some (Inl (err, self')))"
proof -
  have dp: "deploy_pending fuel e config repl self = Some (Inl (err, self'))"
    by (rule deploy_pending_first_fails [OF assms])
  from deploy_task_Inl [OF assms(2)]
  have st: "pending_tasks self' = rest" "deployed_tasks self' = deployed_tasks self"
    "completed_tasks self' = completed_tasks self" "jobs_created self' = jobs_created self"
    by simp_all
  show ?thesis
    using dp st policy_run_deploy_fails [where admit = admit_arrivals, OF _ dp]
      batch_run_deploy_fails [OF _ _ dp]
    by (simp add: SimulatedOrchestrator_run_def)
qed


theorem deployment_failure_ends_run_witness:
  "deploy_pending 5 env_submit_fails cfg_par 1 st_admitted =
     Some (Inl (ApiException,
                st_admitted\<lparr>pending_tasks := [mk_task ''uuid-1'' 2 1 Distributed 10],
                            config_maps_created :=
                              [(''prod'', ''master-uuid-0-1''), (''prod'', ''worker-uuid-0-1'')]\<rparr>)) \<and>
   SimulatedOrchestrator_run 5 env_submit_fails cfg_par False 1
       [[mk_arrival 1 0 Federated 10, mk_arrival 2 1 Distributed 10], []] (new_orchestrator None) =
     Some (Inl (ApiException,
                st_admitted\<lparr>pending_tasks := [mk_task ''uuid-1'' 2 1 Distributed 10],
                            config_maps_created :=
                              [(''prod'', ''master-uuid-0-1''), (''prod'', ''worker-uuid-0-1'')]\<rparr>))"
proof -
  have h1: "heappop (pending_tasks st_admitted) =
              Inr (mk_task ''uuid-0'' 1 0 Federated 10, [mk_task ''uuid-1'' 2 1 Distributed 10])"
    by code_simp
  have h2: "deploy_task env_submit_fails cfg_par 1 (mk_task ''uuid-0'' 1 0 Federated 10)
              (st_admitted\<lparr>pending_tasks := [mk_task ''uuid-1'' 2 1 Distributed 10]\<rparr>) =
            Inl (ApiException,
                 st_admitted\<lparr>pending_tasks := [mk_task ''uuid-1'' 2 1 Distributed 10],
                             config_maps_created :=
                               [(''prod'', ''master-uuid-0-1''), (''prod'', ''worker-uuid-0-1'')]\<rparr>)"
    by code_simp
  have h3: "admit_arrivals env_submit_fails [mk_arrival 1 0 Federated 10, mk_arrival 2 1 Distributed 10]
              ((new_orchestrator None)\<lparr>alive := True\<rparr>) = Inr st_admitted"
    by code_simp
  from deployment_failure_ends_run [OF h1 h2, where fuel = 5
      and batch = "[mk_arrival 1 0 Federated 10, mk_arrival 2 1 Distributed 10]"
      and ?self0.0 = "new_orchestrator None" and batches = "[[]]"] h3
  show ?thesis by blast
qed

text \<open>
  C5 as stated fails. The submission of the first of two admitted tasks is rejected: the
  run of the continuous policy ends with the exception of the client, the second task
  is still pending, no job was created, and the arrival of the next pass is never
  admitted. The same happens in the batch policy when a config map is rejected.
\<close>

theorem deployment_failure_counterexample:
  "SimulatedOrchestrator_run 5 env_submit_fails cfg_par False 1
       [[mk_arrival 1 0 Federated 10, mk_arrival 2 1 Distributed 10], [mk_arrival 3 2 Federated 10]]
       (new_orchestrator None) =
     Some (Inl (ApiException,
                (new_orchestrator None)
                  \<lparr>alive := True,
                   pending_tasks := [mk_task ''uuid-1'' 2 1 Distributed 10],
                   uuid_draws := 2,
                   config_maps_created :=
                     [(''prod'', ''master-uuid-0-1''), (''prod'', ''worker-uuid-0-1'')]\<rparr>)) \<and>
   BatchOrchestrator_run 5 env_registration_fails cfg_seq False 1 False 0
       [mk_arrival 1 0 Federated 10, mk_arrival 2 1 Distributed 10] (new_orchestrator None) =
     Some (Inl (ApiException,
                (new_orchestrator None)
                  \<lparr>alive := True,
                   pending_tasks := [mk_task ''uuid-1'' 2 1 Distributed 10],
                   uuid_draws := 2,
                   config_maps_created := [(''test'', ''master-uuid-0-1'')]\<rparr>))"
  by code_simp

text \<open>
  C6, as the code has it. \<^verbatim>\<open>render_template\<close> raises for a task that is neither federated
  nor distributed: there is no default template. In the deployment loop the exception is
  not caught: when such a task (with at least one role to render) is taken from the
  queue, the loop and the run of the policy end with the exception, and the task is
  neither pending nor deployed nor completed.
\<close>

theorem render_unrecognized_ends_run:
  assumes "task_kind t \<noteq> Federated" and "task_kind t \<noteq> Distributed"
  shows "render_template t tpe repl experiment_path = Inl CannotHandleTask \<and>
         (type_map t \<noteq> [] \<and> heappop (pending_tasks self) = Inr (t, rest) \<longrightarrow>
            deploy_pending fuel e config r self
              = Some (Inl (CannotHandleTask, self\<lparr>pending_tasks := rest\<rparr>)) \<and>
            (admit_arrivals e batch (self0\<lparr>alive := True\<rparr>) = Inr self \<longrightarrow>
               SimulatedOrchestrator_run fuel e config False r (batch # batches) self0
                 = Some (Inl (CannotHandleTask, self\<lparr>pending_tasks := rest\<rparr>))))"
proof (intro conjI impI)
  show "render_template t tpe repl experiment_path = Inl CannotHandleTask"
    using assms by (simp add: render_template_def)
next
  assume a: "type_map t \<noteq> [] \<and> heappop (pending_tasks self) = Inr (t, rest)"
  have d: "deploy_task e config r t (self\<lparr>pending_tasks := rest\<rparr>)
             = Inl (CannotHandleTask, self\<lparr>pending_tasks := rest\<rparr>)"
    using deploy_task_unrecognized [OF assms] a by simp
  show dp: "deploy_pending fuel e config r self
              = Some (Inl (CannotHandleTask, self\<lparr>pending_tasks := rest\<rparr>))"
    using deploy_pending_first_fails [OF _ d] a by simp
  assume "admit_arrivals e batch (self0\<lparr>alive := True\<rparr>) = Inr self"
  then show "SimulatedOrchestrator_run fuel e config False r (batch # batches) self0
               = Some (Inl (CannotHandleTask, self\<lparr>pending_tasks := rest\<rparr>))"
    using policy_run_deploy_fails [where admit = admit_arrivals, OF _ dp]
    by (simp add: SimulatedOrchestrator_run_def)
qed

theorem render_unrecognized_ends_run_witness:
  "render_template (mk_task ''x'' 1 0 Unrecognized 10) ''Master'' 1 ''logging/exp/x''
     = Inl CannotHandleTask \<and>
   deploy_pending 5 env_ok cfg_par 1 st_unrecognized =
     Some (Inl (CannotHandleTask,
                st_unrecognized\<lparr>pending_tasks := [mk_task ''uuid-1'' 2 1 Distributed 10]\<rparr>)) \<and>
   SimulatedOrchestrator_run 5 env_ok cfg_par False 1 [[]] st_unrecognized =
     Some (Inl (CannotHandleTask,
                st_unrecognized\<lparr>pending_tasks := [mk_task ''uuid-1'' 2 1 Distributed 10]\<rparr>))"
proof -
  have k: "task_kind (mk_task ''x'' 1 0 Unrecognized 10) \<noteq> Federated"
    "task_kind (mk_task ''x'' 1 0 Unrecognized 10) \<noteq> Distributed"
    by (simp_all add: mk_task_def)
  have h1: "type_map (mk_task ''x'' 1 0 Unrecognized 10) \<noteq> [] \<and>
            heappop (pending_tasks st_unrecognized) =
              Inr (mk_task ''x'' 1 0 Unrecognized 10, [mk_task ''uuid-1'' 2 1 Distributed 10])"
    by code_simp
  have h2: "admit_arrivals env_ok [] (st_unrecognized\<lparr>alive := True\<rparr>) = Inr st_unrecognized"
    by (simp add: st_unrecognized_def)
  from render_unrecognized_ends_run [OF k, where tpe = "''Master''" and repl = 1
      and experiment_path = "''logging/exp/x''" and self = st_unrecognized
      and rest = "[mk_task ''uuid-1'' 2 1 Distributed 10]" and fuel = 5 and e = env_ok
      and config = cfg_par and r = 1 and batch = "[]" and ?self0.0 = st_unrecognized
      and batches = "[]"] h1 h2
  show ?thesis by blast
qed

text \<open>
  C6 as stated fails. A queue that holds one task of an unknown class: the run ends with
  the exception of the renderer, the task is in none of the three sets, and the arrival
  of the next pass is never admitted.
\<close>

theorem render_unrecognized_counterexample:
  "SimulatedOrchestrator_run 5 env_ok cfg_seq False 1 [[], [mk_arrival 3 2 Federated 10]]
       ((new_orchestrator None)\<lparr>pending_tasks := [mk_task ''x'' 1 0 Unrecognized 10]\<rparr>) =
     Some (Inl (CannotHandleTask, (new_orchestrator None)\<lparr>alive := True\<rparr>))"
  by code_simp

section \<open>The task sets: properties\<close>

text \<open>
  The three sets are disjoint when no identifier occurs in two of them; the tracked tasks
  are counted with \<^verbatim>\<open>qsize\<close> and \<^verbatim>\<open>len\<close>. The invariant of a run adds what is needed to
  carry the two through every operation: the queue is a heap without repeated identifiers,
  the sets are finite, the deployed tasks have different identifiers, and every identifier
  was drawn before.
\<close>

definition disjoint_sets :: "orchestrator \<Rightarrow> bool" where
  "disjoint_sets self \<longleftrightarrow>
     task_id ` set (pending_tasks self) \<inter> task_id ` deployed_tasks self = {} \<and>
     task_id ` set (pending_tasks self) \<inter> task_id ` completed_tasks self = {} \<and>
     task_id ` deployed_tasks self \<inter> task_id ` completed_tasks self = {}"

definition tracked :: "orchestrator \<Rightarrow> nat" where
  "tracked self =
     length (pending_tasks self) + card (deployed_tasks self) + card (completed_tasks self)"

definition orch_inv :: "env \<Rightarrow> nat \<Rightarrow> orchestrator \<Rightarrow> bool" where
  "orch_inv e n self \<longleftrightarrow>
     heap_inv (pending_tasks self) \<and>
     finite (deployed_tasks self) \<and> finite (completed_tasks self) \<and>
     distinct (map task_id (pending_tasks self)) \<and>
     inj_on task_id (deployed_tasks self) \<and>
     disjoint_sets self \<and>
     task_id ` (set (pending_tasks self) \<union> deployed_tasks self \<union> completed_tasks self)
       \<subseteq> uuid4 e ` {..<uuid_draws self} \<and>
     tracked self = n"

lemma orch_inv_start: "orch_inv e 0 (new_orchestrator tt)"
  by (simp add: orch_inv_def new_orchestrator_def heap_inv_Nil disjoint_sets_def tracked_def)

lemma orch_inv_put:
  assumes inv: "orch_inv e n self" and inj: "inj (uuid4 e)"
    and tid: "task_id t = uuid4 e (uuid_draws self)"
  shows "orch_inv e (Suc n)
           (self\<lparr>uuid_draws := Suc (uuid_draws self),
                 pending_tasks := heappush (pending_tasks self) t\<rparr>)"
proof -
  let ?h = "pending_tasks self"
  let ?D = "deployed_tasks self"
  let ?C = "completed_tasks self"
  have hi: "heap_inv ?h" and ids: "task_id ` (set ?h \<union> ?D \<union> ?C) \<subseteq> uuid4 e ` {..<uuid_draws self}"
    and dist: "distinct (map task_id ?h)" and dj: "disjoint_sets self" and tr: "tracked self = n"
    and fin: "finite ?D" "finite ?C" and inD: "inj_on task_id ?D"
    using inv by (simp_all add: orch_inv_def)
  from heappush_heap [OF hi, of t]
  have hi': "heap_inv (heappush ?h t)" and ms: "mset (heappush ?h t) = mset (t # ?h)" by simp_all
  have set': "set (heappush ?h t) = insert t (set ?h)"
    using mset_eq_setD [OF ms] by simp
  have fresh: "task_id t \<notin> task_id ` (set ?h \<union> ?D \<union> ?C)"
  proof
    assume "task_id t \<in> task_id ` (set ?h \<union> ?D \<union> ?C)"
    then have "uuid4 e (uuid_draws self) \<in> uuid4 e ` {..<uuid_draws self}" using ids tid by auto
    then obtain k where "k < uuid_draws self" "uuid4 e k = uuid4 e (uuid_draws self)" by auto
    then show False using inj by (auto dest: injD)
  qed
  have "mset (map task_id (heappush ?h t)) = mset (map task_id (t # ?h))"
    using ms by (metis mset_map)
  then have "distinct (map task_id (heappush ?h t)) \<longleftrightarrow> distinct (map task_id (t # ?h))"
    by (rule mset_eq_imp_distinct_iff)
  then have dist': "distinct (map task_id (heappush ?h t))" using dist fresh by auto
  have nh: "task_id t \<notin> task_id ` ?D" and nc: "task_id t \<notin> task_id ` ?C"
    using fresh by blast+
  have d1: "task_id ` set ?h \<inter> task_id ` ?D = {}" and d2: "task_id ` set ?h \<inter> task_id ` ?C = {}"
    using dj by (simp_all add: disjoint_sets_def)
  have dj': "task_id ` set (heappush ?h t) \<inter> task_id ` ?D = {}"
       "task_id ` set (heappush ?h t) \<inter> task_id ` ?C = {}"
    unfolding set' using nh nc d1 d2 by simp_all
  have "uuid4 e ` {..<uuid_draws self} \<subseteq> uuid4 e ` {..<Suc (uuid_draws self)}"
    by (rule image_mono) simp
  with ids have ids0: "task_id ` (set ?h \<union> ?D \<union> ?C) \<subseteq> uuid4 e ` {..<Suc (uuid_draws self)}"
    by (rule subset_trans)
  have "task_id t \<in> uuid4 e ` {..<Suc (uuid_draws self)}" unfolding tid by simp
  with ids0 have ids': "task_id ` (set (heappush ?h t) \<union> ?D \<union> ?C)
                          \<subseteq> uuid4 e ` {..<Suc (uuid_draws self)}"
    unfolding set' by (simp add: image_Un)
  show ?thesis
    using hi' fin dist' inD dj dj' ids' tr
    by (simp add: orch_inv_def disjoint_sets_def tracked_def)
qed


lemma generate_task_Inr:
  "generate_task e arr self = Inr (t, self1) \<Longrightarrow>
   self1 = self\<lparr>uuid_draws := Suc (uuid_draws self)\<rparr> \<and> task_id t = uuid4 e (uuid_draws self)"
  by (auto simp add: generate_task_def build_def Let_def split: sum.splits if_splits)



lemma orch_inv_deploy:
  assumes inv: "orch_inv e n self"
    and pop: "heappop (pending_tasks self) = Inr (curr_task, rest)"
    and dep: "deploy_task e config repl curr_task (self\<lparr>pending_tasks := rest\<rparr>) = Inr self'"
  shows "orch_inv e n self' \<and> curr_task \<in> set (pending_tasks self) \<and>
         task_id curr_task \<notin> task_id ` set (pending_tasks self') \<and>
         curr_task \<in> deployed_tasks self'"
proof -
  let ?h = "pending_tasks self"
  let ?D = "deployed_tasks self"
  let ?C = "completed_tasks self"
  have hi: "heap_inv ?h" and ids: "task_id ` (set ?h \<union> ?D \<union> ?C) \<subseteq> uuid4 e ` {..<uuid_draws self}"
    and dist: "distinct (map task_id ?h)" and dj: "disjoint_sets self" and tr: "tracked self = n"
    and fin: "finite ?D" "finite ?C" and inD: "inj_on task_id ?D"
    using inv by (simp_all add: orch_inv_def)
  have ne: "?h \<noteq> []" using pop by (auto simp add: heappop_def)
  from heappop_heap [OF hi ne] pop
  have hr: "heap_inv rest" and ms: "mset rest + {#curr_task#} = mset ?h" by auto
  have ms': "mset ?h = mset (curr_task # rest)" using ms by simp
  have seth: "set ?h = insert curr_task (set rest)" using mset_eq_setD [OF ms'] by simp
  have "mset (map task_id ?h) = mset (map task_id (curr_task # rest))"
    using ms' by (metis mset_map)
  then have "distinct (map task_id ?h) \<longleftrightarrow> distinct (map task_id (curr_task # rest))"
    by (rule mset_eq_imp_distinct_iff)
  then have dr: "distinct (map task_id rest)" and cr: "task_id curr_task \<notin> task_id ` set rest"
    using dist by simp_all
  have len: "length ?h = Suc (length rest)" using length_heappop [OF pop] by simp
  from deploy_task_Inr [OF dep]
  have p': "pending_tasks self' = rest" and d': "deployed_tasks self' = insert curr_task ?D"
    and c': "completed_tasks self' = ?C" and u': "uuid_draws self' = uuid_draws self"
    by simp_all
  have d1: "task_id ` set ?h \<inter> task_id ` ?D = {}" and d2: "task_id ` set ?h \<inter> task_id ` ?C = {}"
    and d3: "task_id ` ?D \<inter> task_id ` ?C = {}"
    using dj by (simp_all add: disjoint_sets_def)
  have cin: "task_id curr_task \<in> task_id ` set ?h" unfolding seth by simp
  have cD: "task_id curr_task \<notin> task_id ` ?D" using cin d1 by blast
  have cC: "task_id curr_task \<notin> task_id ` ?C" using cin d2 by blast
  have cnotD: "curr_task \<notin> ?D" using cD by blast
  have rsub: "task_id ` set rest \<subseteq> task_id ` set ?h" unfolding seth by blast
  have n1: "task_id ` set rest \<inter> task_id ` insert curr_task ?D = {}"
    using rsub d1 cr by auto
  have n2: "task_id ` set rest \<inter> task_id ` ?C = {}" using rsub d2 by blast
  have n3: "task_id ` insert curr_task ?D \<inter> task_id ` ?C = {}" using d3 cC by auto
  have "task_id curr_task \<notin> task_id ` (?D - {curr_task})" using cD by blast
  then have inj': "inj_on task_id (insert curr_task ?D)" using inD by simp
  have "set rest \<union> insert curr_task ?D \<union> ?C = set ?h \<union> ?D \<union> ?C" unfolding seth by blast
  then have ids': "task_id ` (set rest \<union> insert curr_task ?D \<union> ?C) \<subseteq> uuid4 e ` {..<uuid_draws self}"
    using ids by simp
  have tr': "length rest + card (insert curr_task ?D) + card ?C = n"
    using tr len fin cnotD by (simp add: tracked_def)
  have "orch_inv e n self'"
    unfolding orch_inv_def disjoint_sets_def tracked_def p' d' c' u'
    using hr fin dr inj' n1 n2 n3 ids' tr' by simp
  then show ?thesis using seth p' d' cr by simp
qed

lemma task_to_move_subset: "task_to_move e self \<subseteq> deployed_tasks self"
  by (auto simp add: task_to_move_def)

lemma orch_inv_poll:
  assumes inv: "orch_inv e n self"
  shows "orch_inv e n (poll_iteration e self)"
proof -
  let ?h = "pending_tasks self"
  let ?D = "deployed_tasks self"
  let ?C = "completed_tasks self"
  let ?M = "task_to_move e self"
  have hi: "heap_inv ?h" and ids: "task_id ` (set ?h \<union> ?D \<union> ?C) \<subseteq> uuid4 e ` {..<uuid_draws self}"
    and dist: "distinct (map task_id ?h)" and dj: "disjoint_sets self" and tr: "tracked self = n"
    and fin: "finite ?D" "finite ?C" and inD: "inj_on task_id ?D"
    using inv by (simp_all add: orch_inv_def)
  have MD: "?M \<subseteq> ?D" by (rule task_to_move_subset)
  have finM: "finite ?M" using MD fin(1) by (rule finite_subset)
  have d1: "task_id ` set ?h \<inter> task_id ` ?D = {}" and d2: "task_id ` set ?h \<inter> task_id ` ?C = {}"
    and d3: "task_id ` ?D \<inter> task_id ` ?C = {}"
    using dj by (simp_all add: disjoint_sets_def)
  have CM: "?C \<inter> ?M = {}" using d3 MD by blast
  have n1: "task_id ` set ?h \<inter> task_id ` (?D - ?M) = {}" using d1 by blast
  have n2: "task_id ` set ?h \<inter> task_id ` (?C \<union> ?M) = {}" using d1 d2 MD by blast
  have n3: "task_id ` (?D - ?M) \<inter> task_id ` (?C \<union> ?M) = {}"
  proof (rule ccontr)
    assume "task_id ` (?D - ?M) \<inter> task_id ` (?C \<union> ?M) \<noteq> {}"
    then obtain a b where a: "a \<in> ?D" "a \<notin> ?M" and b: "b \<in> ?C \<union> ?M" and ab: "task_id a = task_id b"
      by auto
    show False
    proof (cases "b \<in> ?M")
      case True
      then have "b \<in> ?D" using MD by blast
      then have "a = b" using inD a(1) ab by (auto dest: inj_onD)
      then show False using a(2) True by simp
    next
      case False
      then have "b \<in> ?C" using b by simp
      then show False using d3 a(1) ab by blast
    qed
  qed
  have inj': "inj_on task_id (?D - ?M)" using inD by (rule inj_on_diff)
  have "set ?h \<union> (?D - ?M) \<union> (?C \<union> ?M) \<subseteq> set ?h \<union> ?D \<union> ?C" using MD by blast
  then have "task_id ` (set ?h \<union> (?D - ?M) \<union> (?C \<union> ?M)) \<subseteq> task_id ` (set ?h \<union> ?D \<union> ?C)"
    by (rule image_mono)
  then have ids': "task_id ` (set ?h \<union> (?D - ?M) \<union> (?C \<union> ?M)) \<subseteq> uuid4 e ` {..<uuid_draws self}"
    using ids by (rule subset_trans)
  have c1: "card (?D - ?M) = card ?D - card ?M" using MD finM by (simp add: card_Diff_subset)
  have c2: "card (?C \<union> ?M) = card ?C + card ?M" using fin(2) finM CM by (simp add: card_Un_disjoint)
  have c3: "card ?M \<le> card ?D" using MD fin(1) by (rule card_mono [rotated])
  have tr': "length ?h + card (?D - ?M) + card (?C \<union> ?M) = n"
    using tr c1 c2 c3 by (simp add: tracked_def)
  show ?thesis
    unfolding orch_inv_def disjoint_sets_def tracked_def
    using hi fin finM dist inj' n1 n2 n3 ids' tr' by (simp add: poll_iteration_def)
qed

lemma orch_inv_sleep:
  "orch_inv e n self \<Longrightarrow> orch_inv e n (self\<lparr>sleeps := Suc (sleeps self)\<rparr>)"
  by (simp add: orch_inv_def disjoint_sets_def tracked_def)









text \<open>
  The loops of the policies keep the invariant as well, as long as they do not raise.
\<close>

lemma orch_inv_fields:
  assumes "orch_inv e n self"
    and "pending_tasks self' = pending_tasks self" and "deployed_tasks self' = deployed_tasks self"
    and "completed_tasks self' = completed_tasks self" and "uuid_draws self' = uuid_draws self"
  shows "orch_inv e n self'"
  using assms by (simp add: orch_inv_def disjoint_sets_def tracked_def)

lemma admit_arrivals_inv:
  "inj (uuid4 e) \<Longrightarrow> orch_inv e n self \<Longrightarrow> admit_arrivals e batch self = Inr self' \<Longrightarrow>
   orch_inv e (n + length batch) self' \<and> alive self' = alive self \<and>
   deployed_tasks self' = deployed_tasks self"
proof (induction batch arbitrary: n self)
  case Nil
  then show ?case by simp
next
  case (Cons arr arrs)
  from Cons.prems(3) obtain t self1 where
    g: "generate_task e arr self = Inr (t, self1)"
    and r: "admit_arrivals e arrs (self1\<lparr>pending_tasks := heappush (pending_tasks self1) t\<rparr>) = Inr self'"
    by (auto split: sum.splits prod.splits)
  from generate_task_Inr [OF g] have s1: "self1 = self\<lparr>uuid_draws := Suc (uuid_draws self)\<rparr>"
    and tid: "task_id t = uuid4 e (uuid_draws self)" by simp_all
  have "orch_inv e (Suc n) (self1\<lparr>pending_tasks := heappush (pending_tasks self1) t\<rparr>)"
    using orch_inv_put [OF Cons.prems(2) Cons.prems(1) tid] s1 by simp
  from Cons.IH [OF Cons.prems(1) this r] show ?case using s1 by simp
qed

lemma wait_loop_inv:
  "orch_inv e n self \<Longrightarrow> wait_loop fuel e self = Some self' \<Longrightarrow>
   orch_inv e n self' \<and> alive self' = alive self \<and> deployed_tasks self' = {} \<and>
   pending_tasks self' = pending_tasks self"
proof (induction fuel arbitrary: self)
  case 0
  then show ?case by (auto split: if_splits)
next
  case (Suc fuel)
  show ?case
  proof (cases "deployed_tasks self = {}")
    case True
    then show ?thesis using Suc.prems by simp
  next
    case False
    then have w: "wait_loop fuel e (poll_iteration e self) = Some self'" using Suc.prems(2) by simp
    from Suc.IH [OF orch_inv_poll [OF Suc.prems(1)] w] show ?thesis
      by (simp add: poll_iteration_def)
  qed
qed

lemma alive_create_config_maps:
  "create_config_maps e config cms self = Inr self' \<Longrightarrow> alive self' = alive self"
  by (induction e config cms self rule: create_config_maps.induct) (auto split: if_splits)

lemma alive_deploy_task:
  "deploy_task e config repl t self = Inr self' \<Longrightarrow> alive self' = alive self"
  by (auto simp add: deploy_task_def Let_def split: sum.splits prod.splits if_splits
           dest: alive_create_config_maps)

lemma deploy_pending_inv:
  "orch_inv e n self \<Longrightarrow> deploy_pending fuel e config repl self = Some (Inr self') \<Longrightarrow>
   orch_inv e n self' \<and> alive self' = alive self \<and> pending_tasks self' = [] \<and>
   (\<not> parallel_execution config \<and> deployed_tasks self = {} \<longrightarrow> deployed_tasks self' = {})"
proof (induction fuel e config repl self rule: deploy_pending.induct)
  case (1 fuel e config repl self)
  show ?case
  proof (cases "pending_tasks self = []")
    case True
    then have "self' = self" using "1.prems"(2) by (subst (asm) deploy_pending.simps) simp
    then show ?thesis using "1.prems"(1) True by simp
  next
    case False
    from "1.prems"(2) False obtain curr_task rest self1 where
      pop: "heappop (pending_tasks self) = Inr (curr_task, rest)"
      and dep: "deploy_task e config repl curr_task (self\<lparr>pending_tasks := rest\<rparr>) = Inr self1"
      by (subst (asm) deploy_pending.simps) (auto split: sum.splits prod.splits if_splits option.splits)
    from orch_inv_deploy [OF "1.prems"(1) pop dep] have inv1: "orch_inv e n self1" by simp
    have al1: "alive self1 = alive self" using alive_deploy_task [OF dep] by simp
    show ?thesis
    proof (cases "parallel_execution config")
      case True
      then have r: "deploy_pending fuel e config repl self1 = Some (Inr self')"
        using "1.prems"(2) False pop dep by (subst (asm) deploy_pending.simps) simp
      from "1.IH"(2) [OF False pop refl dep _ inv1 r] True al1 show ?thesis by simp
    next
      case seq: False
      from "1.prems"(2) False pop dep seq obtain self2 where
        w: "wait_for_jobs_to_complete fuel e None self1 = Some self2"
        and r: "deploy_pending fuel e config repl self2 = Some (Inr self')"
        by (subst (asm) deploy_pending.simps) (auto split: option.splits)
      have w': "wait_loop fuel e self1 = Some self2"
        using w by (simp add: wait_for_jobs_to_complete_def seed_historical_def)
      from wait_loop_inv [OF inv1 w'] have inv2: "orch_inv e n self2" and al2: "alive self2 = alive self1"
        and d2: "deployed_tasks self2 = {}" by simp_all
      from "1.IH"(1) [OF False pop refl dep _ w inv2 r] seq al1 al2 d2 show ?thesis by simp
    qed
  qed
qed

lemma delete_jobs_fields:
  "pending_tasks (delete_jobs e ns names self) = pending_tasks self \<and>
   deployed_tasks (delete_jobs e ns names self) = deployed_tasks self \<and>
   completed_tasks (delete_jobs e ns names self) = completed_tasks self \<and>
   uuid_draws (delete_jobs e ns names self) = uuid_draws self \<and>
   alive (delete_jobs e ns names self) = alive self"
  by (induction e ns names self rule: delete_jobs.induct) simp_all

lemma clear_jobs_inv:
  "orch_inv e n self \<Longrightarrow> clear_jobs e config self = Inr self' \<Longrightarrow>
   orch_inv e n self' \<and> alive self' = alive self \<and> deployed_tasks self' = deployed_tasks self"
  using delete_jobs_fields [of e "namespace config" _ self]
  by (auto simp add: clear_jobs_def split: reply.splits intro: orch_inv_fields)

lemma policy_loop_inv:
  "inj (uuid4 e) \<Longrightarrow> orch_inv e n self \<Longrightarrow> alive self \<Longrightarrow>
   policy_loop admit_arrivals fuel e config repl batches self = Some (Inr self') \<Longrightarrow>
   orch_inv e (n + length (concat batches)) self' \<and> alive self' \<and>
   (batches \<noteq> [] \<longrightarrow> pending_tasks self' = []) \<and>
   (\<not> parallel_execution config \<and> deployed_tasks self = {} \<longrightarrow> deployed_tasks self' = {})"
proof (induction batches arbitrary: n self)
  case Nil
  then show ?case by simp
next
  case (Cons batch batches)
  from Cons.prems(3,4) obtain self1 self2 where
    a: "admit_arrivals e batch self = Inr self1"
    and d: "deploy_pending fuel e config repl self1 = Some (Inr self2)"
    and r: "policy_loop admit_arrivals fuel e config repl batches (self2\<lparr>sleeps := Suc (sleeps self2)\<rparr>)
              = Some (Inr self')"
    by (auto split: sum.splits option.splits)
  from admit_arrivals_inv [OF Cons.prems(1,2) a]
  have i1: "orch_inv e (n + length batch) self1" and a1: "alive self1 = alive self"
    and d1: "deployed_tasks self1 = deployed_tasks self" by simp_all
  from deploy_pending_inv [OF i1 d]
  have i2: "orch_inv e (n + length batch) self2" and a2: "alive self2 = alive self1"
    and p2: "pending_tasks self2 = []"
    and d2: "\<not> parallel_execution config \<and> deployed_tasks self1 = {} \<longrightarrow> deployed_tasks self2 = {}"
    by simp_all
  let ?s3 = "self2\<lparr>sleeps := Suc (sleeps self2)\<rparr>"
  have i3: "orch_inv e (n + length batch) ?s3" by (rule orch_inv_sleep [OF i2])
  have a3: "alive ?s3" using a2 a1 Cons.prems(3) by simp
  from Cons.IH [OF Cons.prems(1) i3 a3 r]
  have f: "orch_inv e (n + length batch + length (concat batches)) self'" and fa: "alive self'"
    and fp: "batches \<noteq> [] \<longrightarrow> pending_tasks self' = []"
    and fd: "\<not> parallel_execution config \<and> deployed_tasks ?s3 = {} \<longrightarrow> deployed_tasks self' = {}"
    by simp_all
  have "pending_tasks self' = []"
  proof (cases "batches = []")
    case True
    then show ?thesis using r p2 by auto
  next
    case False
    then show ?thesis using fp by simp
  qed
  then show ?case using f fa fd d2 d1 by (simp add: add.assoc)
qed

text \<open>
  The same for a whole run of the continuous policy that starts from a new orchestrator
  and returns: every arrival of every pass was admitted, nothing is pending or deployed
  any more, and there are as many completed tasks as arrivals.
\<close>

lemma simulated_run_inv:
  assumes "inj (uuid4 e)" and "batches \<noteq> []"
    and "SimulatedOrchestrator_run fuel e config clear repl batches (new_orchestrator tt)
           = Some (Inr self')"
  shows "disjoint_sets self' \<and> pending_tasks self' = [] \<and> deployed_tasks self' = {} \<and>
         card (completed_tasks self') = length (concat batches)"
proof -
  let ?s0 = "(new_orchestrator tt)\<lparr>alive := True\<rparr>"
  have i0: "orch_inv e 0 ?s0"
    by (rule orch_inv_fields [OF orch_inv_start [of e tt]]) simp_all
  define c0 :: outcome where "c0 = (if clear then clear_jobs e config ?s0 else Inr ?s0)"
  define final :: "orchestrator \<Rightarrow> outcome option" where "final = (\<lambda>self2.
             if parallel_execution config
             then (case wait_for_jobs_to_complete fuel e None (stop self2) of
                     None \<Rightarrow> None | Some self3 \<Rightarrow> Some (Inr self3))
             else Some (Inr (stop self2)))"
  have run: "(case c0 of
                Inl x \<Rightarrow> Some (Inl x)
              | Inr self1 \<Rightarrow>
                  (case policy_loop admit_arrivals fuel e config repl batches self1 of
                     None \<Rightarrow> None
                   | Some (Inl x) \<Rightarrow> Some (Inl x)
                   | Some (Inr self2) \<Rightarrow> final self2)) = Some (Inr self')"
    using assms(3) unfolding SimulatedOrchestrator_run_def policy_run_def c0_def final_def .
  then obtain self1 where c': "c0 = Inr self1"
    and l': "(case policy_loop admit_arrivals fuel e config repl batches self1 of
                     None \<Rightarrow> None
                   | Some (Inl x) \<Rightarrow> Some (Inl x)
                   | Some (Inr self2) \<Rightarrow> final self2) = Some (Inr self')"
    by (cases c0) auto
  then obtain self2 where
    l: "policy_loop admit_arrivals fuel e config repl batches self1 = Some (Inr self2)"
    and w': "final self2 = Some (Inr self')"
    by (cases "policy_loop admit_arrivals fuel e config repl batches self1") (auto split: sum.splits)
  have c: "(if clear then clear_jobs e config ?s0 else Inr ?s0) = Inr self1"
    using c' unfolding c0_def .
  have w: "(if parallel_execution config
             then (case wait_for_jobs_to_complete fuel e None (stop self2) of
                     None \<Rightarrow> None | Some self3 \<Rightarrow> Some (Inr self3))
             else Some (Inr (stop self2))) = (Some (Inr self') :: outcome option)"
    using w' unfolding final_def .
  have i1: "orch_inv e 0 self1 \<and> alive self1 \<and> deployed_tasks self1 = {}"
  proof (cases clear)
    case True
    then show ?thesis using c clear_jobs_inv [OF i0, of config self1]
      by (simp add: new_orchestrator_def)
  next
    case False
    then show ?thesis using c i0 by (auto simp add: new_orchestrator_def)
  qed
  have j1: "orch_inv e 0 self1" and k1: "alive self1" and e1: "deployed_tasks self1 = {}"
    using i1 by simp_all
  from policy_loop_inv [OF assms(1) j1 k1 l] e1 assms(2)
  have i2: "orch_inv e (length (concat batches)) self2" and p2: "pending_tasks self2 = []"
    and d2: "\<not> parallel_execution config \<longrightarrow> deployed_tasks self2 = {}"
    by simp_all
  have i3: "orch_inv e (length (concat batches)) (stop self2)"
    by (rule orch_inv_fields [OF i2]) (simp_all add: stop_def)
  have f: "orch_inv e (length (concat batches)) self' \<and> pending_tasks self' = [] \<and>
           deployed_tasks self' = {}"
  proof (cases "parallel_execution config")
    case True
    then obtain self3 where w3: "wait_for_jobs_to_complete fuel e None (stop self2) = Some self3"
      and e3: "self' = self3" using w by (auto split: option.splits)
    have "wait_loop fuel e (stop self2) = Some self3"
      using w3 by (simp add: wait_for_jobs_to_complete_def seed_historical_def)
    from wait_loop_inv [OF i3 this] e3 p2 show ?thesis by (simp add: stop_def)
  next
    case False
    then have "self' = stop self2" using w by simp
    then show ?thesis using i3 p2 d2 False by (simp add: stop_def)
  qed
  then show ?thesis by (auto simp add: orch_inv_def tracked_def)
qed

end
